theory Spec2Isabelle
  imports Main "HOL-Library.Multiset"
begin

section \<open>Data model\<close>

text \<open>
  Exceptions that matter to the pipeline: numpy's \<open>ValueError\<close> (stacking an empty list or
  arrays of different shapes), \<open>TypeError\<close> (iterating over a 0-d array) and any exception
  raised by the external sample generation.
\<close>

datatype error = ValueError | TypeError | RegionError

text \<open>
  A numpy array: its shape and its elements in row-major order. The element type stays
  abstract, so equality of elements is equality of their bits.
\<close>

record 'e ndarray =
  shape :: "nat list"
  elems :: "'e list"

definition wf_array :: "'e ndarray \<Rightarrow> bool" where
  "wf_array a = (length (elems a) = prod_list (shape a))"

text \<open>
  \<open>np.stack(arrays)\<close> along the new leading axis 0: it raises on an empty list and on
  arrays whose shapes differ; otherwise the result has shape \<open>(k, <shape>)\<close> and holds the
  arrays' elements one after the other.
\<close>

definition np_stack :: "'e ndarray list \<Rightarrow> error + 'e ndarray" where
  "np_stack arrays =
     (case arrays of
        [] \<Rightarrow> Inl ValueError
      | a # _ \<Rightarrow>
          if list_ex (\<lambda>b. shape b \<noteq> shape a) arrays then Inl ValueError
          else Inr \<lparr>shape = length arrays # shape a, elems = concat (map elems arrays)\<rparr>)"

text \<open>\<open>batch[i]\<close>: the i-th slice of an array along its first axis.\<close>

definition row :: "'e ndarray \<Rightarrow> nat \<Rightarrow> 'e ndarray" where
  "row b i =
     (let sz = prod_list (tl (shape b))
      in \<lparr>shape = tl (shape b), elems = take sz (drop (i * sz) (elems b))\<rparr>)"

text \<open>Iterating over an array yields its slices along the first axis; a 0-d array raises.\<close>

definition rows :: "'e ndarray \<Rightarrow> error + 'e ndarray list" where
  "rows b = (case shape b of [] \<Rightarrow> Inl TypeError | k # _ \<Rightarrow> Inr (map (row b) [0..<k]))"

text \<open>A Sample: positional metadata (kept abstract) and a feature matrix.\<close>

record ('p, 'e) sample =
  meta :: 'p
  features :: "'e ndarray"

text \<open>
  Modelled from the spec: \<open>Sample.amend\<close> of \<open>medaka.common\<close> is not part of the source
  given; the spec has it rebind the Sample's feature reference and nothing else.
\<close>

definition amend :: "('p, 'e) sample \<Rightarrow> 'e ndarray \<Rightarrow> ('p, 'e) sample" where
  "amend s feat = s\<lparr>features := feat\<rparr>"

type_synonym ('p, 'e) batch = "('p, 'e) sample list \<times> 'e ndarray"

text \<open>
  The body of the loop of \<open>DataLoader._batch_worker\<close> for one group \<open>data\<close>: stack the
  features, remake the samples over the slices of the stacked array, and pair them up.
  \<open>zip\<close> stops at the shorter of its arguments, as Python's does.
\<close>

definition stack_batch :: "('p, 'e) sample list \<Rightarrow> error + ('p, 'e) batch" where
  "stack_batch grp =
     (case np_stack (map features grp) of
        Inl e \<Rightarrow> Inl e
      | Inr batch \<Rightarrow>
          (case rows batch of
             Inl e \<Rightarrow> Inl e
           | Inr feats \<Rightarrow>
               Inr (map (\<lambda>(feat, s). amend s feat) (zip feats grp), batch)))"

text \<open>
  Modelled from the spec: \<open>medaka.common.grouper\<close> is not part of the source given. The
  spec has it accumulate consecutive items, in arrival order, into groups of exactly
  \<open>batch_size\<close>, emit a group once it is full, and at the end of the stream emit a
  partial group, if there is one, as it is.
\<close>

fun grouper_acc :: "int \<Rightarrow> 'a list \<Rightarrow> 'a list \<Rightarrow> 'a list list" where
  "grouper_acc n acc [] = (if acc = [] then [] else [acc])"
| "grouper_acc n acc (x # xs) =
     (if int (length (acc @ [x])) = n then (acc @ [x]) # grouper_acc n [] xs
      else grouper_acc n (acc @ [x]) xs)"

definition grouper :: "'a list \<Rightarrow> int \<Rightarrow> 'a list list" where
  "grouper gen n = grouper_acc n [] gen"

text \<open>
  \<open>DataLoader._batch_worker\<close> run on a whole sample stream: the batches it puts, in order,
  and the exception that killed it, if one did. A group that fails to stack ends the
  thread; the batches put before stay put.
\<close>

fun stack_all :: "('p, 'e) sample list list \<Rightarrow> ('p, 'e) batch list \<times> error option" where
  "stack_all [] = ([], None)"
| "stack_all (g # gs) =
     (case stack_batch g of
        Inl e \<Rightarrow> ([], Some e)
      | Inr b \<Rightarrow> (case stack_all gs of (bs, r) \<Rightarrow> (b # bs, r)))"

definition batch_worker :: "int \<Rightarrow> ('p, 'e) sample list \<Rightarrow> ('p, 'e) batch list \<times> error option" where
  "batch_worker batch_size stream = stack_all (grouper stream batch_size)"

section \<open>Queues\<close>

text \<open>
  Python's \<open>queue.Queue(maxsize)\<close>: a FIFO buffer. The standard library documents, and
  implements, a \<open>maxsize\<close> of zero or less as no bound at all: \<open>put\<close> waits only while
  \<open>maxsize > 0\<close> and the queue holds \<open>maxsize\<close> items or more.
\<close>

record 'a queue =
  maxsize :: int
  items :: "'a list"

definition Queue :: "int \<Rightarrow> 'a queue" where
  "Queue n = \<lparr>maxsize = n, items = []\<rparr>"

definition full :: "'a queue \<Rightarrow> bool" where
  "full q = (0 < maxsize q \<and> maxsize q \<le> int (length (items q)))"

text \<open>A blocking \<open>put\<close>: \<open>None\<close> while the caller has to wait.\<close>

definition put :: "'a \<Rightarrow> 'a queue \<Rightarrow> 'a queue option" where
  "put x q = (if full q then None else Some (q\<lparr>items := items q @ [x]\<rparr>))"

text \<open>\<open>get_nowait\<close>: \<open>None\<close> is the exception \<open>queue.Empty\<close>.\<close>

definition get_nowait :: "'a queue \<Rightarrow> ('a \<times> 'a queue) option" where
  "get_nowait q = (case items q of [] \<Rightarrow> None | x # xs \<Rightarrow> Some (x, q\<lparr>items := xs\<rparr>))"

text \<open>What travels through a queue: a payload, or the sentinel \<open>StopIteration\<close>.\<close>

datatype 'a item = Item 'a | StopIteration

section \<open>The data loader\<close>

text \<open>
  Where a region worker thread stands in \<open>DataLoader._region_worker\<close>: about to poll the
  intake (\<open>WGet\<close>), about to put its sentinel after it saw the intake empty (\<open>WStop\<close>),
  inside the loop over the samples of a region with the samples still to put and the
  region's remainder (\<open>WPush\<close>), returned (\<open>WDone\<close>), or killed by an exception (\<open>WDead\<close>).
\<close>

datatype ('p, 'e, 'm) worker =
  WGet | WStop | WPush "('p, 'e) sample list" "'m list" | WDone | WDead error

text \<open>
  Where the batcher thread stands in \<open>DataLoader._batch_worker\<close>: inside
  \<open>_get_samples\<close> polling the sample queue (\<open>BGet\<close>), about to put a stacked batch
  (\<open>BPut\<close>), about to put the final \<open>StopIteration\<close> (\<open>BPutStop\<close>), returned, or killed.
\<close>

datatype ('p, 'e) batcher =
  BGet | BPut "('p, 'e) batch" | BPutStop | BDone | BDead error

text \<open>
  The \<open>DataLoader\<close> object with its threads, and the caller iterating over it:
  \<open>nstops\<close> is the counter of \<open>_get_samples\<close>, \<open>exhausted\<close> says that this generator has
  returned, \<open>pending\<close> is the group \<open>grouper\<close> is filling; \<open>received\<close> are the batches
  \<open>__next__\<close> has returned and \<open>stopped\<close> says that it has raised \<open>StopIteration\<close>.
\<close>

record ('r, 'p, 'e, 'm) loader =
  batch_size :: int
  bam_workers :: int
  samples_q :: "('p, 'e) sample item queue"
  batches_q :: "('p, 'e) batch item queue"
  regions_q :: "'r queue"
  remainders :: "'m list"
  sample_workers :: "('p, 'e, 'm) worker list"
  bthread :: "('p, 'e) batcher"
  nstops :: nat
  exhausted :: bool
  pending :: "('p, 'e) sample list"
  received :: "('p, 'e) batch list"
  stopped :: bool

text \<open>
  \<open>DataLoader.__init__\<close>. The intake queue is unbounded and filled before any thread
  starts; \<open>range(bam_workers)\<close> is empty for a count of zero or less.
\<close>

definition DataLoader_init :: "'r list \<Rightarrow> int \<Rightarrow> int \<Rightarrow> int \<Rightarrow> ('r, 'p, 'e, 'm) loader" where
  "DataLoader_init regions bsize batch_cache_size workers =
     (let sample_cache_size = batch_cache_size * bsize;
          batch_cache_size = 0
      in \<lparr>batch_size = bsize,
          bam_workers = workers,
          samples_q = Queue sample_cache_size,
          batches_q = Queue batch_cache_size,
          regions_q = (Queue 0)\<lparr>items := regions\<rparr>,
          remainders = [],
          sample_workers = replicate (nat workers) WGet,
          bthread = BGet,
          nstops = 0,
          exhausted = False,
          pending = [],
          received = [],
          stopped = False\<rparr>)"

text \<open>
  The loader \<open>run_prediction\<close> builds (lines 25 to 30): it hands on the regions and the
  batch size, and passes the literals 8 and 2 for the cache size and the worker count.
\<close>

definition run_prediction :: "'r list \<Rightarrow> int \<Rightarrow> int \<Rightarrow> ('r, 'p, 'e, 'm) loader" where
  "run_prediction regions bsize workers = DataLoader_init regions bsize 8 2"

text \<open>
  One step of the region worker \<open>w\<close>. The sample generation \<open>run_region\<close> is external: it
  gives the samples and the remainder items of a region, or raises. \<open>None\<close>: the thread
  cannot move (it waits in a \<open>put\<close>, or it is over).
\<close>

definition region_worker ::
  "('r \<Rightarrow> error + ('p, 'e) sample list \<times> 'm list) \<Rightarrow> nat \<Rightarrow>
   ('r, 'p, 'e, 'm) loader \<Rightarrow> ('r, 'p, 'e, 'm) loader option" where
  "region_worker run_region w s =
     (if w < length (sample_workers s) then
        (case sample_workers s ! w of
           WGet \<Rightarrow>
             (case get_nowait (regions_q s) of
                None \<Rightarrow> Some (s\<lparr>sample_workers := (sample_workers s)[w := WStop]\<rparr>)
              | Some (region, q) \<Rightarrow>
                  (case run_region region of
                     Inl e \<Rightarrow>
                       Some (s\<lparr>regions_q := q,
                               sample_workers := (sample_workers s)[w := WDead e]\<rparr>)
                   | Inr (samples, remain) \<Rightarrow>
                       Some (s\<lparr>regions_q := q,
                               sample_workers := (sample_workers s)[w := WPush samples remain]\<rparr>)))
         | WStop \<Rightarrow>
             (case put StopIteration (samples_q s) of
                None \<Rightarrow> None
              | Some q \<Rightarrow>
                  Some (s\<lparr>samples_q := q, sample_workers := (sample_workers s)[w := WDone]\<rparr>))
         | WPush samples remain \<Rightarrow>
             (case samples of
                [] \<Rightarrow>
                  Some (s\<lparr>remainders := remainders s @ remain,
                          sample_workers := (sample_workers s)[w := WGet]\<rparr>)
              | x # xs \<Rightarrow>
                  (case put (Item x) (samples_q s) of
                     None \<Rightarrow> None
                   | Some q \<Rightarrow>
                       Some (s\<lparr>samples_q := q,
                               sample_workers := (sample_workers s)[w := WPush xs remain]\<rparr>)))
         | WDone \<Rightarrow> None
         | WDead e \<Rightarrow> None)
      else None)"

text \<open>The batcher takes a group from \<open>grouper\<close> and stacks it; a failure kills the thread.\<close>

definition take_group ::
  "('p, 'e) sample list \<Rightarrow> ('r, 'p, 'e, 'm) loader \<Rightarrow> ('r, 'p, 'e, 'm) loader" where
  "take_group grp s =
     (case stack_batch grp of
        Inl e \<Rightarrow> s\<lparr>bthread := BDead e\<rparr>
      | Inr b \<Rightarrow> s\<lparr>bthread := BPut b, pending := []\<rparr>)"

text \<open>
  One step of the batcher: \<open>_get_samples\<close> under \<open>grouper\<close> under the loop of
  \<open>_batch_worker\<close>. A poll of the empty sample queue changes nothing and is no step.
\<close>

definition batch_worker_step :: "('r, 'p, 'e, 'm) loader \<Rightarrow> ('r, 'p, 'e, 'm) loader option" where
  "batch_worker_step s =
     (case bthread s of
        BGet \<Rightarrow>
          (case get_nowait (samples_q s) of
             None \<Rightarrow> None
           | Some (res, q) \<Rightarrow>
               (case res of
                  StopIteration \<Rightarrow>
                    if int (nstops s + 1) = bam_workers s then
                      (let s' = s\<lparr>samples_q := q, nstops := nstops s + 1, exhausted := True\<rparr>
                       in if pending s = [] then Some (s'\<lparr>bthread := BPutStop\<rparr>)
                          else Some (take_group (pending s) s'))
                    else Some (s\<lparr>samples_q := q, nstops := nstops s + 1\<rparr>)
                | Item x \<Rightarrow>
                    if int (length (pending s @ [x])) = batch_size s then
                      Some (take_group (pending s @ [x])
                              (s\<lparr>samples_q := q, pending := pending s @ [x]\<rparr>))
                    else Some (s\<lparr>samples_q := q, pending := pending s @ [x]\<rparr>)))
      | BPut b \<Rightarrow>
          (case put (Item b) (batches_q s) of
             None \<Rightarrow> None
           | Some q \<Rightarrow>
               Some (s\<lparr>batches_q := q, bthread := (if exhausted s then BPutStop else BGet)\<rparr>))
      | BPutStop \<Rightarrow>
          (case put StopIteration (batches_q s) of
             None \<Rightarrow> None
           | Some q \<Rightarrow> Some (s\<lparr>batches_q := q, bthread := BDone\<rparr>))
      | BDone \<Rightarrow> None
      | BDead e \<Rightarrow> None)"

text \<open>
  One step of the caller in \<open>DataLoader.__next__\<close>: a poll of the empty batch queue is no
  step; a batch is returned to the caller, \<open>StopIteration\<close> ends the iteration.
\<close>

definition next_step :: "('r, 'p, 'e, 'm) loader \<Rightarrow> ('r, 'p, 'e, 'm) loader option" where
  "next_step s =
     (if stopped s then None
      else (case get_nowait (batches_q s) of
              None \<Rightarrow> None
            | Some (batch, q) \<Rightarrow>
                (case batch of
                   StopIteration \<Rightarrow> Some (s\<lparr>batches_q := q, stopped := True\<rparr>)
                 | Item b \<Rightarrow> Some (s\<lparr>batches_q := q, received := received s @ [b]\<rparr>))))"

text \<open>
  The threads, and the interleaving semantics: a schedule names the thread that runs
  next; a thread that cannot move leaves the state as it is.
\<close>

datatype thread = Sample nat | Batcher | Consumer

definition step ::
  "('r \<Rightarrow> error + ('p, 'e) sample list \<times> 'm list) \<Rightarrow> thread \<Rightarrow>
   ('r, 'p, 'e, 'm) loader \<Rightarrow> ('r, 'p, 'e, 'm) loader option" where
  "step run_region t s =
     (case t of
        Sample w \<Rightarrow> region_worker run_region w s
      | Batcher \<Rightarrow> batch_worker_step s
      | Consumer \<Rightarrow> next_step s)"

definition advance ::
  "('r \<Rightarrow> error + ('p, 'e) sample list \<times> 'm list) \<Rightarrow>
   ('r, 'p, 'e, 'm) loader \<Rightarrow> thread \<Rightarrow> ('r, 'p, 'e, 'm) loader" where
  "advance run_region s t = (case step run_region t s of None \<Rightarrow> s | Some s' \<Rightarrow> s')"

definition run ::
  "('r \<Rightarrow> error + ('p, 'e) sample list \<times> 'm list) \<Rightarrow> thread list \<Rightarrow>
   ('r, 'p, 'e, 'm) loader \<Rightarrow> ('r, 'p, 'e, 'm) loader" where
  "run run_region sched s = foldl (advance run_region) s sched"

text \<open>Every thread is over: the workers returned, the batcher returned, the iteration ended.\<close>

definition finished :: "('r, 'p, 'e, 'm) loader \<Rightarrow> bool" where
  "finished s = (list_all (\<lambda>w. w = WDone) (sample_workers s) \<and> bthread s = BDone \<and> stopped s)"

section \<open>The thread count of predict\<close>

record args =
  threads :: int

fun str_nat :: "nat \<Rightarrow> string" where
  "str_nat n =
     (if n < 10 then [''0123456789'' ! n]
      else str_nat (n div 10) @ [''0123456789'' ! (n mod 10)])"

declare str_nat.simps [simp del]

text \<open>Python's \<open>str\<close> of an integer.\<close>

definition str :: "int \<Rightarrow> string" where
  "str i = (if i < 0 then CHR ''-'' # str_nat (nat (- i)) else str_nat (nat i))"

text \<open>
  Lines 98 to 114 of \<open>predict\<close>: the thread count is cut down to 2, then written to the
  environment of the inference backend.
\<close>

definition predict :: "'a args_scheme \<Rightarrow> (string \<rightharpoonup> string) \<Rightarrow> 'a args_scheme \<times> (string \<rightharpoonup> string)" where
  "predict a environ =
     (let a = (if threads a > 2 then a\<lparr>threads := 2\<rparr> else a)
      in (a, environ(''TF_NUM_INTEROP_THREADS'' \<mapsto> str (threads a),
                     ''TF_NUM_INTRAOP_THREADS'' \<mapsto> str 1,
                     ''OMP_NUM_THREADS'' \<mapsto> str 1)))"

section \<open>Observations on a state\<close>

text \<open>What no step changes: the configuration, the queues' bounds, the number of workers.\<close>

definition static :: "('r, 'p, 'e, 'm) loader \<Rightarrow> int \<times> int \<times> int \<times> int \<times> nat" where
  "static s = (batch_size s, bam_workers s, maxsize (samples_q s), maxsize (batches_q s),
     length (sample_workers s))"

text \<open>
  The sentinels put on the sample queue so far (those the batcher has counted and those
  still queued), and the workers that have returned.
\<close>

definition posted :: "('r, 'p, 'e, 'm) loader \<Rightarrow> nat" where
  "posted s = nstops s + count_list (items (samples_q s)) StopIteration"

definition returned :: "('r, 'p, 'e, 'm) loader \<Rightarrow> nat" where
  "returned s = count_list (sample_workers s) WDone"

text \<open>
  The invariant of the termination protocol: the sentinels posted are those of the workers
  that returned, and \<open>_get_samples\<close> has returned exactly when its counter has reached the
  worker count.
\<close>

definition counting :: "('r, 'p, 'e, 'm) loader \<Rightarrow> bool" where
  "counting s =
     (posted s = returned s \<and>
      (exhausted s \<longleftrightarrow> 0 < bam_workers s \<and> int (nstops s) = bam_workers s) \<and>
      (exhausted s \<longrightarrow> bthread s \<noteq> BGet))"

text \<open>While the intake holds a region, no worker has seen it empty.\<close>

definition drained :: "('r, 'p, 'e, 'm) loader \<Rightarrow> bool" where
  "drained s =
     (items (regions_q s) \<noteq> [] \<longrightarrow> WStop \<notin> set (sample_workers s) \<and> WDone \<notin> set (sample_workers s))"

section \<open>Work left\<close>

text \<open>
  What the external sample generation gives for a region; nothing when it raises.
\<close>

definition samples_of ::
  "('r \<Rightarrow> error + ('p, 'e) sample list \<times> 'm list) \<Rightarrow> 'r \<Rightarrow> ('p, 'e) sample list" where
  "samples_of run_region r = (case run_region r of Inl e \<Rightarrow> [] | Inr (samples, remain) \<Rightarrow> samples)"

definition remain_of ::
  "('r \<Rightarrow> error + ('p, 'e) sample list \<times> 'm list) \<Rightarrow> 'r \<Rightarrow> 'm list" where
  "remain_of run_region r = (case run_region r of Inl e \<Rightarrow> [] | Inr (samples, remain) \<Rightarrow> remain)"

text \<open>
  An upper bound on the steps still to come, as a sum of costs: of each region not yet
  taken, each worker, each item queued, each sample in the group being filled, and the
  batcher.
\<close>

definition region_cost ::
  "('r \<Rightarrow> error + ('p, 'e) sample list \<times> 'm list) \<Rightarrow> 'r \<Rightarrow> nat" where
  "region_cost run_region r = 4 * length (samples_of run_region r) + 2"

fun worker_cost :: "('p, 'e, 'm) worker \<Rightarrow> nat" where
  "worker_cost WGet = 3"
| "worker_cost WStop = 2"
| "worker_cost (WPush samples remain) = 4 * length samples + 4"
| "worker_cost WDone = 0"
| "worker_cost (WDead e) = 0"

fun item_cost :: "'a item \<Rightarrow> nat" where
  "item_cost (Item x) = 3"
| "item_cost StopIteration = 1"

fun batcher_cost :: "('p, 'e) batcher \<Rightarrow> nat" where
  "batcher_cost BGet = 2"
| "batcher_cost (BPut b) = 4"
| "batcher_cost BPutStop = 2"
| "batcher_cost BDone = 0"
| "batcher_cost (BDead e) = 0"

definition work ::
  "('r \<Rightarrow> error + ('p, 'e) sample list \<times> 'm list) \<Rightarrow> ('r, 'p, 'e, 'm) loader \<Rightarrow> nat" where
  "work run_region s =
     sum_list (map (region_cost run_region) (items (regions_q s))) +
     sum_list (map worker_cost (sample_workers s)) +
     sum_list (map item_cost (items (samples_q s))) +
     2 * length (pending s) +
     batcher_cost (bthread s) +
     length (items (batches_q s))"

section \<open>Invariants of a run without failures\<close>

text \<open>
  A sample whose feature matrix is a proper array, and of the configured shape unless the
  batch size is 1 (then no two samples are ever stacked together); and a region for which
  the sample generation returns, with such samples only.
\<close>

definition ok_sample :: "int \<Rightarrow> nat list \<Rightarrow> ('p, 'e) sample \<Rightarrow> bool" where
  "ok_sample bsize shp x = (wf_array (features x) \<and> (bsize = 1 \<or> shape (features x) = shp))"

definition good_region ::
  "('r \<Rightarrow> error + ('p, 'e) sample list \<times> 'm list) \<Rightarrow> int \<Rightarrow> nat list \<Rightarrow> 'r \<Rightarrow> bool" where
  "good_region run_region bsize shp r =
     (case run_region r of
        Inl e \<Rightarrow> False
      | Inr (samples, remain) \<Rightarrow> list_all (ok_sample bsize shp) samples)"

fun worker_ok :: "int \<Rightarrow> nat list \<Rightarrow> ('p, 'e, 'm) worker \<Rightarrow> bool" where
  "worker_ok bsize shp (WPush samples remain) = list_all (ok_sample bsize shp) samples"
| "worker_ok bsize shp (WDead e) = False"
| "worker_ok bsize shp w = True"

fun item_ok :: "int \<Rightarrow> nat list \<Rightarrow> ('p, 'e) sample item \<Rightarrow> bool" where
  "item_ok bsize shp (Item x) = ok_sample bsize shp x"
| "item_ok bsize shp StopIteration = True"

fun alive :: "('p, 'e) batcher \<Rightarrow> bool" where
  "alive (BDead e) = False"
| "alive b = True"

text \<open>Nothing has failed and nothing in the pipeline can make a later step fail.\<close>

definition uniform ::
  "('r \<Rightarrow> error + ('p, 'e) sample list \<times> 'm list) \<Rightarrow> nat list \<Rightarrow>
   ('r, 'p, 'e, 'm) loader \<Rightarrow> bool" where
  "uniform run_region shp s =
     (0 < batch_size s \<and>
      list_all (good_region run_region (batch_size s) shp) (items (regions_q s)) \<and>
      list_all (worker_ok (batch_size s) shp) (sample_workers s) \<and>
      list_all (item_ok (batch_size s) shp) (items (samples_q s)) \<and>
      list_all (ok_sample (batch_size s) shp) (pending s) \<and>
      int (length (pending s)) < batch_size s \<and>
      alive (bthread s))"

text \<open>
  How the pipeline closes down: the batcher reaches its last put only after
  \<open>_get_samples\<close> has returned; the final \<open>StopIteration\<close> is the last thing on the batch
  queue, and there until the caller takes it; a started put leaves no group behind; and
  once all workers have returned, the sample queue ends with a sentinel.
\<close>

definition closing :: "('r, 'p, 'e, 'm) loader \<Rightarrow> bool" where
  "closing s =
     ((bthread s = BPutStop \<or> bthread s = BDone \<longrightarrow> exhausted s) \<and>
      (bthread s = BDone \<and> \<not> stopped s \<longrightarrow> StopIteration \<in> set (items (batches_q s))) \<and>
      (bthread s \<noteq> BDone \<longrightarrow> StopIteration \<notin> set (items (batches_q s)) \<and> \<not> stopped s) \<and>
      StopIteration \<notin> set (butlast (items (batches_q s))) \<and>
      (stopped s \<longrightarrow> items (batches_q s) = []) \<and>
      (bthread s \<noteq> BGet \<and> alive (bthread s) \<longrightarrow> pending s = []) \<and>
      (list_all (\<lambda>w. w = WDone) (sample_workers s) \<longrightarrow>
         items (samples_q s) = [] \<or> last (items (samples_q s)) = StopIteration))"

text \<open>The invariants of a run with at least one worker in which nothing fails.\<close>

definition healthy ::
  "('r \<Rightarrow> error + ('p, 'e) sample list \<times> 'm list) \<Rightarrow> nat list \<Rightarrow>
   ('r, 'p, 'e, 'm) loader \<Rightarrow> bool" where
  "healthy run_region shp s =
     (counting s \<and> closing s \<and> drained s \<and> uniform run_region shp s \<and>
      length (sample_workers s) = nat (bam_workers s) \<and> 0 < bam_workers s \<and>
      maxsize (batches_q s) = 0)"

section \<open>Where the samples are\<close>

fun payloads :: "'a item list \<Rightarrow> 'a list" where
  "payloads [] = []"
| "payloads (Item x # xs) = x # payloads xs"
| "payloads (StopIteration # xs) = payloads xs"

text \<open>
  The samples the batcher has taken off the sample queue, in the order it took them: those
  of the batches the caller has received, of the batches queued, of the batch about to be
  put, and the group being filled.
\<close>

definition batched :: "('r, 'p, 'e, 'm) loader \<Rightarrow> ('p, 'e) sample list" where
  "batched s =
     concat (map fst (received s)) @
     concat (map fst (payloads (items (batches_q s)))) @
     (case bthread s of BPut b \<Rightarrow> fst b | _ \<Rightarrow> []) @
     pending s"

text \<open>The merged sample stream so far: every sample a worker has put, in the order of the puts.\<close>

definition merged :: "('r, 'p, 'e, 'm) loader \<Rightarrow> ('p, 'e) sample list" where
  "merged s = batched s @ payloads (items (samples_q s))"

fun worker_samples :: "('p, 'e, 'm) worker \<Rightarrow> ('p, 'e) sample list" where
  "worker_samples (WPush samples remain) = samples"
| "worker_samples w = []"

fun worker_remain :: "('p, 'e, 'm) worker \<Rightarrow> 'm list" where
  "worker_remain (WPush samples remain) = remain"
| "worker_remain w = []"

text \<open>
  Nothing is lost and nothing is made up: the samples in the stream, those a worker still
  holds and those of the regions not yet taken are together the samples of all regions;
  likewise the remainder items.
\<close>

definition accounted ::
  "('r \<Rightarrow> error + ('p, 'e) sample list \<times> 'm list) \<Rightarrow> 'r list \<Rightarrow>
   ('r, 'p, 'e, 'm) loader \<Rightarrow> bool" where
  "accounted run_region regions s =
     (mset (merged s) +
        sum_list (map (\<lambda>w. mset (worker_samples w)) (sample_workers s)) +
        sum_list (map (\<lambda>r. mset (samples_of run_region r)) (items (regions_q s))) =
      sum_list (map (\<lambda>r. mset (samples_of run_region r)) regions) \<and>
      mset (remainders s) +
        sum_list (map (\<lambda>w. mset (worker_remain w)) (sample_workers s)) +
        sum_list (map (\<lambda>r. mset (remain_of run_region r)) (items (regions_q s))) =
      sum_list (map (\<lambda>r. mset (remain_of run_region r)) regions))"

text \<open>A pipeline that has nothing to do: no region, no sample, no batch anywhere.\<close>

fun idle_worker :: "('p, 'e, 'm) worker \<Rightarrow> bool" where
  "idle_worker WGet = True"
| "idle_worker WStop = True"
| "idle_worker WDone = True"
| "idle_worker w = False"

fun idle_batcher :: "('p, 'e) batcher \<Rightarrow> bool" where
  "idle_batcher BGet = True"
| "idle_batcher BPutStop = True"
| "idle_batcher BDone = True"
| "idle_batcher b = False"

definition idle :: "('r, 'p, 'e, 'm) loader \<Rightarrow> bool" where
  "idle s =
     (items (regions_q s) = [] \<and> list_all idle_worker (sample_workers s) \<and>
      payloads (items (samples_q s)) = [] \<and> pending s = [] \<and> idle_batcher (bthread s) \<and>
      payloads (items (batches_q s)) = [] \<and> received s = [] \<and> remainders s = [])"

section \<open>Order within a region\<close>

text \<open>
  \<open>merge_of M zs\<close>: the list \<open>zs\<close> is an interleaving of the lists in the multiset \<open>M\<close>. Each
  element of \<open>zs\<close> comes from one of the lists, each list is used up, and the elements of
  one list keep their relative order; how the lists interleave is free.
\<close>

inductive merge_of :: "'a list multiset \<Rightarrow> 'a list \<Rightarrow> bool" where
  nothing: "\<forall>xs \<in># M. xs = [] \<Longrightarrow> merge_of M []"
| snoc: "merge_of (add_mset xs M) zs \<Longrightarrow> merge_of (add_mset (xs @ [x]) M) (zs @ [x])"

text \<open>
  The invariant: each region taken so far is split into the samples already put (its
  prefix) and those its worker still holds; the merged stream is an interleaving of the
  prefixes.
\<close>

definition ordered ::
  "('r \<Rightarrow> error + ('p, 'e) sample list \<times> 'm list) \<Rightarrow> 'r list \<Rightarrow>
   ('r, 'p, 'e, 'm) loader \<Rightarrow> bool" where
  "ordered run_region regions s =
     (\<exists>Q. merge_of (image_mset fst Q) (merged s) \<and>
          image_mset (\<lambda>(p, r). p @ r) Q +
            mset (map (samples_of run_region) (items (regions_q s))) =
          mset (map (samples_of run_region) regions) \<and>
          filter_mset (\<lambda>r. r \<noteq> []) (image_mset snd Q) =
          filter_mset (\<lambda>r. r \<noteq> []) (mset (map worker_samples (sample_workers s))))"

section \<open>The batches emitted\<close>

text \<open>
  The batches the batcher has stacked so far, oldest first: those the caller has received,
  those queued, and the one about to be put.
\<close>

definition emitted :: "('r, 'p, 'e, 'm) loader \<Rightarrow> ('p, 'e) batch list" where
  "emitted s =
     received s @ payloads (items (batches_q s)) @ (case bthread s of BPut b \<Rightarrow> [b] | _ \<Rightarrow> [])"

text \<open>
  Until the stream has ended every batch is full; afterwards no group is left behind and
  only the last batch may be short.
\<close>

definition grouped :: "('r, 'p, 'e, 'm) loader \<Rightarrow> bool" where
  "grouped s =
     ((\<not> exhausted s \<longrightarrow> (\<forall>b \<in> set (emitted s). int (length (fst b)) = batch_size s)) \<and>
      (exhausted s \<longrightarrow>
         pending s = [] \<and>
         (\<forall>b \<in> set (butlast (emitted s)). int (length (fst b)) = batch_size s) \<and>
         (\<forall>b \<in> set (emitted s). 1 \<le> length (fst b) \<and> int (length (fst b)) \<le> batch_size s)))"

section \<open>Arrays in memory\<close>

text \<open>
  Where a claim is about which storage an array uses, values are not enough. Memory is a
  list of buffers, a buffer's address is its index, and an array is a view: the buffer it
  reads, where it starts there, and its shape (contiguous, row-major). The feature
  matrices of the samples are such views onto the larger matrices of the feature
  generation.
\<close>

type_synonym 'e memory = "'e list list"

record view =
  base :: nat
  offset :: nat
  dims :: "nat list"

definition valid :: "'e memory \<Rightarrow> view \<Rightarrow> bool" where
  "valid m v = (base v < length m \<and> offset v + prod_list (dims v) \<le> length (m ! base v))"

text \<open>The elements a view shows, in row-major order.\<close>

definition cells :: "'e memory \<Rightarrow> view \<Rightarrow> 'e list" where
  "cells m v = take (prod_list (dims v)) (drop (offset v) (m ! base v))"

text \<open>
  \<open>np.stack(arrays)\<close> in memory: it raises as before; otherwise it fills a new buffer with
  a copy of the arrays' elements and returns the array over the whole of that buffer.
\<close>

definition np_stack_mem :: "'e memory \<Rightarrow> view list \<Rightarrow> error + 'e memory \<times> view" where
  "np_stack_mem m arrays =
     (case arrays of
        [] \<Rightarrow> Inl ValueError
      | a # _ \<Rightarrow>
          if list_ex (\<lambda>b. dims b \<noteq> dims a) arrays then Inl ValueError
          else Inr (m @ [concat (map (cells m) arrays)],
                    \<lparr>base = length m, offset = 0, dims = length arrays # dims a\<rparr>))"

text \<open>\<open>batch[i]\<close> in memory: a view of the same buffer, copying nothing.\<close>

definition row_view :: "view \<Rightarrow> nat \<Rightarrow> view" where
  "row_view b i =
     \<lparr>base = base b, offset = offset b + i * prod_list (tl (dims b)), dims = tl (dims b)\<rparr>"

definition rows_view :: "view \<Rightarrow> error + view list" where
  "rows_view b = (case dims b of [] \<Rightarrow> Inl TypeError | k # _ \<Rightarrow> Inr (map (row_view b) [0..<k]))"

text \<open>A Sample whose feature matrix is a reference to an array in memory.\<close>

record 'p sample_ref =
  meta_ref :: 'p
  features_ref :: view

text \<open>
  Modelled from the spec: \<open>Sample.amend\<close> of \<open>medaka.common\<close> is not part of the source
  given; the spec has it rebind the Sample's feature reference and nothing else.
\<close>

definition amend_ref :: "'p sample_ref \<Rightarrow> view \<Rightarrow> 'p sample_ref" where
  "amend_ref s feat = s\<lparr>features_ref := feat\<rparr>"

text \<open>
  The body of the loop of \<open>DataLoader._batch_worker\<close> (lines 340 to 348) in memory: the
  memory after the stacking, the remade samples and the stacked array.
\<close>

definition stack_batch_mem ::
  "'e memory \<Rightarrow> 'p sample_ref list \<Rightarrow> error + 'e memory \<times> 'p sample_ref list \<times> view" where
  "stack_batch_mem m grp =
     (case np_stack_mem m (map features_ref grp) of
        Inl e \<Rightarrow> Inl e
      | Inr (m', batch) \<Rightarrow>
          (case rows_view batch of
             Inl e \<Rightarrow> Inl e
           | Inr feats \<Rightarrow>
               Inr (m', map (\<lambda>(feat, s). amend_ref s feat) (zip feats grp), batch)))"

text \<open>What an array in memory and a sample in memory are as values.\<close>

definition load :: "'e memory \<Rightarrow> view \<Rightarrow> 'e ndarray" where
  "load m v = \<lparr>shape = dims v, elems = cells m v\<rparr>"

definition load_sample :: "'e memory \<Rightarrow> 'p sample_ref \<Rightarrow> ('p, 'e) sample" where
  "load_sample m s = \<lparr>meta = meta_ref s, features = load m (features_ref s)\<rparr>"

section \<open>Stacking\<close>

lemma concat_slice:
  "\<forall>xs \<in> set xss. length xs = sz \<Longrightarrow> i < length xss \<Longrightarrow>
   take sz (drop (i * sz) (concat xss)) = xss ! i"
proof (induction xss arbitrary: i)
  case Nil
  then show ?case by simp
next
  case (Cons xs xss)
  show ?case
  proof (cases i)
    case 0
    with Cons.prems show ?thesis by simp
  next
    case (Suc j)
    with Cons.prems have "j < length xss" and "length xs = sz" by simp_all
    with Cons Suc show ?thesis by simp
  qed
qed

lemma np_stack_uniform:
  assumes "arrays \<noteq> []" and "\<forall>a \<in> set arrays. shape a = shp"
  shows "np_stack arrays = Inr \<lparr>shape = length arrays # shp, elems = concat (map elems arrays)\<rparr>"
proof -
  from assms obtain a rest where ar: "arrays = a # rest" by (cases arrays) auto
  with assms(2) have "shape a = shp" by simp
  moreover from assms(2) \<open>shape a = shp\<close> have "\<not> list_ex (\<lambda>b. shape b \<noteq> shape a) arrays"
    by (simp add: list_ex_iff)
  ultimately show ?thesis using ar by (simp add: np_stack_def)
qed

lemma row_stacked:
  assumes "\<forall>a \<in> set arrays. shape a = shp \<and> wf_array a" and "i < length arrays"
  shows "row \<lparr>shape = length arrays # shp, elems = concat (map elems arrays)\<rparr> i = arrays ! i"
proof -
  have "\<forall>xs \<in> set (map elems arrays). length xs = prod_list shp"
    using assms(1) by (auto simp: wf_array_def)
  then have "take (prod_list shp) (drop (i * prod_list shp) (concat (map elems arrays)))
      = map elems arrays ! i"
    using assms(2) by (intro concat_slice) simp_all
  moreover have "shape (arrays ! i) = shp" using assms by simp
  ultimately show ?thesis using assms(2) by (simp add: row_def)
qed

lemma amend_own_features: "amend s (features s) = s"
  by (simp add: amend_def)

lemma stack_batch_uniform:
  assumes "grp \<noteq> []" and "\<forall>s \<in> set grp. shape (features s) = shp \<and> wf_array (features s)"
  shows "stack_batch grp =
    Inr (grp, \<lparr>shape = length grp # shp, elems = concat (map elems (map features grp))\<rparr>)"
proof -
  let ?arrays = "map features grp"
  let ?b = "\<lparr>shape = length grp # shp, elems = concat (map elems ?arrays)\<rparr>"
  have st: "np_stack ?arrays = Inr ?b"
    using np_stack_uniform [of ?arrays shp] assms by simp
  have rw: "\<And>i. i < length grp \<Longrightarrow> row ?b i = features (grp ! i)"
    using row_stacked [of ?arrays shp] assms(2) by simp
  have "map (row ?b) [0..<length grp] = ?arrays"
    by (rule nth_equalityI) (simp_all add: rw del: map_map)
  then have rs: "rows ?b = Inr ?arrays" by (simp add: rows_def del: map_map)
  have "map (\<lambda>(feat, s). amend s feat) (zip ?arrays grp) = grp"
    by (rule nth_equalityI) (simp_all add: amend_own_features)
  with st rs show ?thesis by (simp add: stack_batch_def del: map_map)
qed


lemma stack_batch_ok:
  assumes "list_all (ok_sample bsize shp) grp" and "grp \<noteq> []" and "int (length grp) \<le> bsize"
  shows "\<exists>b. stack_batch grp = Inr (grp, b)"
proof (cases "bsize = 1")
  case True
  with assms(2,3) obtain x where x: "grp = [x]" by (cases grp) auto
  with assms(1) have "wf_array (features x)" by (simp add: ok_sample_def)
  with x show ?thesis using stack_batch_uniform [of grp "shape (features x)"] by simp
next
  case False
  with assms(1,2) show ?thesis
    using stack_batch_uniform [of grp shp] by (simp add: list_all_iff ok_sample_def)
qed

section \<open>Stacking in memory\<close>

lemma cells_length: "valid m v \<Longrightarrow> length (cells m v) = prod_list (dims v)"
  by (auto simp: valid_def cells_def)

lemma concat_uniform_length:
  "\<forall>xs \<in> set xss. length xs = sz \<Longrightarrow> length (concat xss) = length xss * sz"
  by (induction xss) auto


lemma np_stack_mem_uniform:
  assumes "arrays \<noteq> []" and "\<forall>a \<in> set arrays. dims a = shp"
  shows "np_stack_mem m arrays =
    Inr (m @ [concat (map (cells m) arrays)],
         \<lparr>base = length m, offset = 0, dims = length arrays # shp\<rparr>)"
proof -
  from assms obtain a rest where ar: "arrays = a # rest" by (cases arrays) auto
  with assms(2) have "dims a = shp" by simp
  moreover from assms(2) \<open>dims a = shp\<close> have "\<not> list_ex (\<lambda>b. dims b \<noteq> dims a) arrays"
    by (simp add: list_ex_iff)
  ultimately show ?thesis using ar by (simp add: np_stack_mem_def)
qed

lemma row_view_cells:
  assumes "\<forall>a \<in> set arrays. dims a = shp \<and> valid m a" and "i < length arrays"
  shows "cells (m @ [concat (map (cells m) arrays)])
           (row_view \<lparr>base = length m, offset = 0, dims = length arrays # shp\<rparr> i) =
         cells m (arrays ! i)"
proof -
  have "\<forall>xs \<in> set (map (cells m) arrays). length xs = prod_list shp"
    using assms(1) by (auto simp: cells_length)
  then have "take (prod_list shp) (drop (i * prod_list shp) (concat (map (cells m) arrays)))
      = map (cells m) arrays ! i"
    using assms(2) by (intro concat_slice) simp_all
  with assms(2) show ?thesis by (simp add: cells_def row_view_def)
qed

lemma stack_batch_mem_uniform:
  assumes "grp \<noteq> []" and "\<forall>s \<in> set grp. dims (features_ref s) = shp"
  shows "stack_batch_mem m grp =
    Inr (m @ [concat (map (cells m) (map features_ref grp))],
         map (\<lambda>i. amend_ref (grp ! i)
                (row_view \<lparr>base = length m, offset = 0, dims = length grp # shp\<rparr> i))
           [0..<length grp],
         \<lparr>base = length m, offset = 0, dims = length grp # shp\<rparr>)"
proof -
  let ?b = "\<lparr>base = length m, offset = 0, dims = length grp # shp\<rparr>"
  have st: "np_stack_mem m (map features_ref grp) =
      Inr (m @ [concat (map (cells m) (map features_ref grp))], ?b)"
    using np_stack_mem_uniform [of "map features_ref grp" shp m] assms by simp
  have rs: "rows_view ?b = Inr (map (row_view ?b) [0..<length grp])"
    by (simp add: rows_view_def)
  have "map (\<lambda>(feat, s). amend_ref s feat) (zip (map (row_view ?b) [0..<length grp]) grp) =
      map (\<lambda>i. amend_ref (grp ! i) (row_view ?b i)) [0..<length grp]"
    by (rule nth_equalityI) simp_all
  with st rs show ?thesis by (simp add: stack_batch_mem_def del: map_map)
qed




text \<open>
  The stacking on values is what the stacking in memory shows: loading the samples and
  stacking them gives the loaded result of stacking them in memory.
\<close>

lemma stack_batch_mem_refines:
  assumes "grp \<noteq> []" and "\<forall>s \<in> set grp. dims (features_ref s) = shp \<and> valid m (features_ref s)"
    and "stack_batch_mem m grp = Inr (m', data, batch)"
  shows "stack_batch (map (load_sample m) grp) = Inr (map (load_sample m') data, load m' batch)"
proof -
  let ?arrays = "map features_ref grp"
  let ?buf = "concat (map (cells m) ?arrays)"
  let ?b = "\<lparr>base = length m, offset = 0, dims = length grp # shp\<rparr>"
  let ?data = "map (\<lambda>i. amend_ref (grp ! i) (row_view ?b i)) [0..<length grp]"
  have "stack_batch_mem m grp = Inr (m @ [?buf], ?data, ?b)"
    using assms(1,2) by (intro stack_batch_mem_uniform) simp_all
  from trans [OF sym [OF assms(3)] this]
  have m': "m' = m @ [?buf]" and data: "data = ?data" and batch: "batch = ?b"
    by blast+
  have "\<forall>xs \<in> set (map (cells m) ?arrays). length xs = prod_list shp"
    using assms(2) by (auto simp: cells_length)
  then have len: "length ?buf = length grp * prod_list shp"
    using concat_uniform_length [of "map (cells m) ?arrays" "prod_list shp"] by simp
  have "\<forall>s \<in> set (map (load_sample m) grp).
      shape (features s) = shp \<and> wf_array (features s)"
    using assms(2) by (auto simp: load_sample_def load_def wf_array_def cells_length)
  with assms(1) have v: "stack_batch (map (load_sample m) grp) =
      Inr (map (load_sample m) grp,
           \<lparr>shape = length (map (load_sample m) grp) # shp,
            elems = concat (map elems (map features (map (load_sample m) grp)))\<rparr>)"
    by (intro stack_batch_uniform) simp_all
  have el: "concat (map elems (map features (map (load_sample m) grp))) = ?buf"
    by (simp add: load_sample_def load_def comp_def)
  have "cells (m @ [?buf]) ?b = ?buf"
    using len by (simp add: cells_def)
  then have "load m' batch = \<lparr>shape = length grp # shp, elems = ?buf\<rparr>"
    unfolding m' batch by (simp add: load_def)
  with el have b: "\<lparr>shape = length (map (load_sample m) grp) # shp,
      elems = concat (map elems (map features (map (load_sample m) grp)))\<rparr> = load m' batch"
    by simp
  have "map (load_sample m') data = map (load_sample m) grp"
  proof (rule nth_equalityI)
    show "length (map (load_sample m') data) = length (map (load_sample m) grp)"
      by (simp add: data)
  next
    fix i assume "i < length (map (load_sample m') data)"
    then have i: "i < length grp" by (simp add: data)
    with assms(2) have "dims (features_ref (grp ! i)) = shp" by simp
    moreover have "cells (m @ [?buf]) (row_view ?b i) = cells m (?arrays ! i)"
      using row_view_cells [of ?arrays shp m i] assms(2) i by simp
    ultimately show "map (load_sample m') data ! i = map (load_sample m) grp ! i"
      using i by (simp add: data m' load_sample_def load_def amend_ref_def row_view_def)
  qed
  with v b show ?thesis by simp
qed

section \<open>Grouping\<close>

lemma grouper_acc_concat: "concat (grouper_acc n acc xs) = acc @ xs"
  by (induction xs arbitrary: acc) auto

lemma grouper_acc_sizes:
  "0 < n \<Longrightarrow> int (length acc) < n \<Longrightarrow> g \<in> set (grouper_acc n acc xs) \<Longrightarrow>
   1 \<le> length g \<and> int (length g) \<le> n"
proof (induction xs arbitrary: acc)
  case Nil
  then show ?case by (auto split: if_splits simp: Suc_le_eq)
next
  case (Cons x xs)
  show ?case
  proof (cases "int (length (acc @ [x])) = n")
    case True
    with Cons.prems(3) have "g = acc @ [x] \<or> g \<in> set (grouper_acc n [] xs)" by simp
    then show ?thesis
    proof
      assume "g = acc @ [x]"
      with True show ?thesis by simp
    next
      assume "g \<in> set (grouper_acc n [] xs)"
      with Cons.IH [of "[]"] Cons.prems(1) show ?thesis by simp
    qed
  next
    case False
    with Cons.prems have "int (length (acc @ [x])) < n" and "g \<in> set (grouper_acc n (acc @ [x]) xs)"
      by simp_all
    with Cons.IH [of "acc @ [x]"] Cons.prems(1) show ?thesis by blast
  qed
qed

lemma grouper_acc_full:
  "g \<in> set (butlast (grouper_acc n acc xs)) \<Longrightarrow> int (length g) = n"
proof (induction xs arbitrary: acc)
  case Nil
  then show ?case by (simp split: if_splits)
next
  case (Cons x xs)
  show ?case
  proof (cases "int (length (acc @ [x])) = n")
    case True
    with Cons.prems have "g \<in> set (butlast ((acc @ [x]) # grouper_acc n [] xs))" by simp
    then have "g = acc @ [x] \<or> g \<in> set (butlast (grouper_acc n [] xs))"
      by (simp split: if_splits)
    with True Cons.IH [of "[]"] show ?thesis by auto
  next
    case False
    with Cons.prems Cons.IH [of "acc @ [x]"] show ?thesis by simp
  qed
qed

lemma stack_all_uniform:
  assumes "\<forall>g \<in> set gs. g \<noteq> [] \<and> int (length g) \<le> n \<and> list_all (ok_sample n shp) g"
  shows "\<exists>bs. stack_all gs = (bs, None) \<and> map fst bs = gs"
  using assms
proof (induction gs)
  case Nil
  then show ?case by simp
next
  case (Cons g gs)
  then obtain bs where bs: "stack_all gs = (bs, None)" "map fst bs = gs" by auto
  from Cons.prems have "\<exists>b. stack_batch g = Inr (g, b)"
    using stack_batch_ok [of n shp g] by simp
  then obtain b where "stack_batch g = Inr (g, b)" ..
  with bs show ?case by simp
qed

text \<open>
  C3. For every stream of samples (proper arrays, of one shape unless the batch size is 1)
  and every positive batch size, the
  batcher runs to its end, the sample lists of its batches concatenated are the stream
  itself (arrival order, nothing added, nothing dropped, the same total), every batch but
  the last holds exactly \<open>batch_size\<close> samples and every batch holds between 1 and
  \<open>batch_size\<close>.
\<close>

theorem batch_worker_groups:
  assumes "0 < n" and "list_all (ok_sample n shp) stream"
  shows "\<exists>batches. batch_worker n stream = (batches, None) \<and>
           map fst batches = grouper stream n \<and>
           concat (map fst batches) = stream \<and>
           (\<forall>b \<in> set (butlast batches). int (length (fst b)) = n) \<and>
           (\<forall>b \<in> set batches. 1 \<le> length (fst b) \<and> int (length (fst b)) \<le> n)"
proof -
  let ?gs = "grouper stream n"
  have cc: "concat ?gs = stream" by (simp add: grouper_def grouper_acc_concat)
  have sz: "\<forall>g \<in> set ?gs. 1 \<le> length g \<and> int (length g) \<le> n"
    using grouper_acc_sizes [of n "[]" _ stream] assms(1) by (simp add: grouper_def)
  have fl: "\<forall>g \<in> set (butlast ?gs). int (length g) = n"
    using grouper_acc_full [of _ n "[]" stream] by (simp add: grouper_def)
  have "\<forall>g \<in> set ?gs. set g \<subseteq> set stream"
    using cc by (metis UN_I set_concat subsetI)
  with sz assms(2) have "\<forall>g \<in> set ?gs. g \<noteq> [] \<and> int (length g) \<le> n \<and>
      list_all (ok_sample n shp) g"
    by (fastforce simp: list_all_iff)
  then obtain bs where bs: "stack_all ?gs = (bs, None)" "map fst bs = ?gs"
    using stack_all_uniform by blast
  have "\<forall>b \<in> set (butlast bs). int (length (fst b)) = n"
    using fl bs(2) by (metis (no_types, lifting) image_eqI list.set_map map_butlast)
  moreover have "\<forall>b \<in> set bs. 1 \<le> length (fst b) \<and> int (length (fst b)) \<le> n"
    using sz bs(2) by (metis (no_types, lifting) image_eqI list.set_map)
  ultimately show ?thesis using bs cc by (simp add: batch_worker_def)
qed

theorem batch_worker_groups_witness:
  "\<exists>batches. batch_worker 2
      [\<lparr>meta = 0::nat, features = \<lparr>shape = [1], elems = [5::int]\<rparr>\<rparr>,
       \<lparr>meta = 1, features = \<lparr>shape = [1], elems = [6]\<rparr>\<rparr>,
       \<lparr>meta = 2, features = \<lparr>shape = [1], elems = [7]\<rparr>\<rparr>] = (batches, None) \<and>
     map fst batches =
      [[\<lparr>meta = 0::nat, features = \<lparr>shape = [1], elems = [5::int]\<rparr>\<rparr>,
        \<lparr>meta = 1, features = \<lparr>shape = [1], elems = [6]\<rparr>\<rparr>],
       [\<lparr>meta = 2, features = \<lparr>shape = [1], elems = [7]\<rparr>\<rparr>]]"
proof -
  let ?stream = "[\<lparr>meta = 0::nat, features = \<lparr>shape = [1], elems = [5::int]\<rparr>\<rparr>,
       \<lparr>meta = 1, features = \<lparr>shape = [1], elems = [6]\<rparr>\<rparr>,
       \<lparr>meta = 2, features = \<lparr>shape = [1], elems = [7]\<rparr>\<rparr>]"
  have "list_all (ok_sample 2 [1]) ?stream"
    by (simp add: ok_sample_def wf_array_def)
  from batch_worker_groups [where n = 2 and stream = ?stream and shp = "[1]", OF _ this]
  obtain batches where b: "batch_worker 2 ?stream = (batches, None)"
    and g: "map fst batches = grouper ?stream 2"
    by auto
  have "grouper ?stream 2 = [[?stream ! 0, ?stream ! 1], [?stream ! 2]]"
    by (simp add: grouper_def)
  with b g show ?thesis by simp
qed

section \<open>Configuration\<close>

lemma str_2: "str 2 = ''2''"
  by (simp add: str_def str_nat.simps)

text \<open>
  C10. When \<open>args.threads\<close> is greater than 2, \<open>predict\<close> sets it to exactly 2 before the
  backend's environment is written; whatever was asked for, the inter-op thread count
  written is the (possibly reduced) thread count and is at most 2.
\<close>

theorem predict_threads:
  "(2 < threads a \<longrightarrow>
      threads (fst (predict a environ)) = 2 \<and>
      snd (predict a environ) ''TF_NUM_INTEROP_THREADS'' = Some ''2'') \<and>
   threads (fst (predict a environ)) \<le> 2 \<and>
   snd (predict a environ) ''TF_NUM_INTEROP_THREADS'' = Some (str (threads (fst (predict a environ))))"
  by (simp add: predict_def str_2)

theorem predict_threads_witness:
  "(2::int) < threads \<lparr>threads = 8\<rparr> \<and>
   threads (fst (predict \<lparr>threads = 8\<rparr> Map.empty)) = 2 \<and>
   snd (predict \<lparr>threads = 8\<rparr> Map.empty) ''TF_NUM_INTEROP_THREADS'' = Some ''2''"
  using predict_threads [of "\<lparr>threads = 8\<rparr>" Map.empty] by simp

lemma run_prediction_config:
  "bam_workers (run_prediction regions bsize workers) = 2 \<and>
   length (sample_workers (run_prediction regions bsize workers)) = 2 \<and>
   maxsize (samples_q (run_prediction regions bsize workers)) = 8 * bsize \<and>
   maxsize (batches_q (run_prediction regions bsize workers)) = 0"
  by (simp add: run_prediction_def DataLoader_init_def Queue_def)

text \<open>
  C9. \<open>run_prediction\<close> called with \<open>bam_workers = 4\<close> starts two region workers, not four:
  the argument is not handed on. (The sample queue's capacity is \<open>8 * batch_size\<close>.)
\<close>

theorem run_prediction_four_workers:
  "length (sample_workers (run_prediction [] 200 4 :: (unit, unit, unit, unit) loader)) = 2 \<and>
   bam_workers (run_prediction [] 200 4 :: (unit, unit, unit, unit) loader) = 2 \<and>
   maxsize (samples_q (run_prediction [] 200 4 :: (unit, unit, unit, unit) loader)) = 8 * 200"
  by (simp add: run_prediction_def DataLoader_init_def Queue_def)

section \<open>Steps and runs\<close>

lemma run_Cons: "run rr (t # ts) s = run rr ts (advance rr s t)"
  by (simp add: run_def)

lemma run_append: "run rr (xs @ ys) s = run rr ys (run rr xs s)"
  by (simp add: run_def)

lemma run_invariant:
  assumes "P s" and "\<And>s t s'. P s \<Longrightarrow> step rr t s = Some s' \<Longrightarrow> P s'"
  shows "P (run rr sched s)"
  using assms(1)
proof (induction sched arbitrary: s)
  case Nil
  then show ?case by (simp add: run_def)
next
  case (Cons t ts)
  have "P (advance rr s t)"
    using Cons.prems assms(2) by (cases "step rr t s") (auto simp: advance_def)
  then show ?case using Cons.IH by (simp add: run_Cons)
qed

lemma region_worker_cases [consumes 1, case_names get_empty get_dead get_region stop push_done push]:
  assumes "region_worker rr w s = Some s'"
  obtains
    (get_empty) "w < length (sample_workers s)" "sample_workers s ! w = WGet"
      "items (regions_q s) = []"
      "s' = s\<lparr>sample_workers := (sample_workers s)[w := WStop]\<rparr>"
  | (get_dead) r rs e where "w < length (sample_workers s)" "sample_workers s ! w = WGet"
      "items (regions_q s) = r # rs" "rr r = Inl e"
      "s' = s\<lparr>regions_q := (regions_q s)\<lparr>items := rs\<rparr>,
              sample_workers := (sample_workers s)[w := WDead e]\<rparr>"
  | (get_region) r rs samples remain where "w < length (sample_workers s)"
      "sample_workers s ! w = WGet"
      "items (regions_q s) = r # rs" "rr r = Inr (samples, remain)"
      "s' = s\<lparr>regions_q := (regions_q s)\<lparr>items := rs\<rparr>,
              sample_workers := (sample_workers s)[w := WPush samples remain]\<rparr>"
  | (stop) "w < length (sample_workers s)" "sample_workers s ! w = WStop"
      "\<not> full (samples_q s)"
      "s' = s\<lparr>samples_q := (samples_q s)\<lparr>items := items (samples_q s) @ [StopIteration]\<rparr>,
              sample_workers := (sample_workers s)[w := WDone]\<rparr>"
  | (push_done) remain where "w < length (sample_workers s)"
      "sample_workers s ! w = WPush [] remain"
      "s' = s\<lparr>remainders := remainders s @ remain,
              sample_workers := (sample_workers s)[w := WGet]\<rparr>"
  | (push) x xs remain where "w < length (sample_workers s)"
      "sample_workers s ! w = WPush (x # xs) remain"
      "\<not> full (samples_q s)"
      "s' = s\<lparr>samples_q := (samples_q s)\<lparr>items := items (samples_q s) @ [Item x]\<rparr>,
              sample_workers := (sample_workers s)[w := WPush xs remain]\<rparr>"
proof -
  from assms have w: "w < length (sample_workers s)"
    by (simp add: region_worker_def split: if_splits)
  show thesis
  proof (cases "sample_workers s ! w")
    case WGet
    show ?thesis
    proof (cases "items (regions_q s)")
      case Nil
      with assms w WGet show ?thesis
        by (intro get_empty) (simp_all add: region_worker_def get_nowait_def)
    next
      case (Cons r rs)
      show ?thesis
      proof (cases "rr r")
        case (Inl e)
        with assms w WGet Cons show ?thesis
          by (intro get_dead [of r rs e]) (simp_all add: region_worker_def get_nowait_def)
      next
        case (Inr p)
        obtain samples remain where p: "p = (samples, remain)" by (cases p)
        with assms w WGet Cons Inr show ?thesis
          by (intro get_region [of r rs samples remain])
             (simp_all add: region_worker_def get_nowait_def)
      qed
    qed
  next
    case WStop
    with assms w show ?thesis
      by (intro stop) (simp_all add: region_worker_def put_def split: if_splits)
  next
    case (WPush samples remain)
    show ?thesis
    proof (cases samples)
      case Nil
      with assms w WPush show ?thesis
        by (intro push_done [of remain]) (simp_all add: region_worker_def)
    next
      case (Cons x xs)
      with assms w WPush show ?thesis
        by (intro push [of x xs remain]) (simp_all add: region_worker_def put_def split: if_splits)
    qed
  next
    case WDone
    with assms w show ?thesis by (simp add: region_worker_def)
  next
    case (WDead e)
    with assms w show ?thesis by (simp add: region_worker_def)
  qed
qed


lemma batch_worker_step_cases [consumes 1, case_names stop_more stop_last stop_group stop_dead
    item_more item_group item_dead put_batch put_stop]:
  assumes "batch_worker_step s = Some s'"
  obtains
    (stop_more) q where "bthread s = BGet" "items (samples_q s) = StopIteration # q"
      "int (nstops s + 1) \<noteq> bam_workers s"
      "s' = s\<lparr>samples_q := (samples_q s)\<lparr>items := q\<rparr>, nstops := nstops s + 1\<rparr>"
  | (stop_last) q where "bthread s = BGet" "items (samples_q s) = StopIteration # q"
      "int (nstops s + 1) = bam_workers s" "pending s = []"
      "s' = s\<lparr>samples_q := (samples_q s)\<lparr>items := q\<rparr>, nstops := nstops s + 1,
              exhausted := True, bthread := BPutStop\<rparr>"
  | (stop_group) q b where "bthread s = BGet" "items (samples_q s) = StopIteration # q"
      "int (nstops s + 1) = bam_workers s" "pending s \<noteq> []"
      "stack_batch (pending s) = Inr b"
      "s' = s\<lparr>samples_q := (samples_q s)\<lparr>items := q\<rparr>, nstops := nstops s + 1,
              exhausted := True, bthread := BPut b, pending := []\<rparr>"
  | (stop_dead) q e where "bthread s = BGet" "items (samples_q s) = StopIteration # q"
      "int (nstops s + 1) = bam_workers s" "pending s \<noteq> []"
      "stack_batch (pending s) = Inl e"
      "s' = s\<lparr>samples_q := (samples_q s)\<lparr>items := q\<rparr>, nstops := nstops s + 1,
              exhausted := True, bthread := BDead e\<rparr>"
  | (item_more) x q where "bthread s = BGet" "items (samples_q s) = Item x # q"
      "int (length (pending s @ [x])) \<noteq> batch_size s"
      "s' = s\<lparr>samples_q := (samples_q s)\<lparr>items := q\<rparr>, pending := pending s @ [x]\<rparr>"
  | (item_group) x q b where "bthread s = BGet" "items (samples_q s) = Item x # q"
      "int (length (pending s @ [x])) = batch_size s"
      "stack_batch (pending s @ [x]) = Inr b"
      "s' = s\<lparr>samples_q := (samples_q s)\<lparr>items := q\<rparr>, bthread := BPut b, pending := []\<rparr>"
  | (item_dead) x q e where "bthread s = BGet" "items (samples_q s) = Item x # q"
      "int (length (pending s @ [x])) = batch_size s"
      "stack_batch (pending s @ [x]) = Inl e"
      "s' = s\<lparr>samples_q := (samples_q s)\<lparr>items := q\<rparr>, pending := pending s @ [x],
              bthread := BDead e\<rparr>"
  | (put_batch) b where "bthread s = BPut b" "\<not> full (batches_q s)"
      "s' = s\<lparr>batches_q := (batches_q s)\<lparr>items := items (batches_q s) @ [Item b]\<rparr>,
              bthread := (if exhausted s then BPutStop else BGet)\<rparr>"
  | (put_stop) "bthread s = BPutStop" "\<not> full (batches_q s)"
      "s' = s\<lparr>batches_q := (batches_q s)\<lparr>items := items (batches_q s) @ [StopIteration]\<rparr>,
              bthread := BDone\<rparr>"
proof (cases "bthread s")
  case BGet
  show ?thesis
  proof (cases "items (samples_q s)")
    case Nil
    with assms BGet show ?thesis by (simp add: batch_worker_step_def get_nowait_def)
  next
    case (Cons res q)
    show ?thesis
    proof (cases res)
      case StopIteration
      show ?thesis
      proof (cases "int (nstops s + 1) = bam_workers s")
        case False
        with assms BGet Cons StopIteration show ?thesis
          by (intro stop_more [of q]) (simp_all add: batch_worker_step_def get_nowait_def)
      next
        case True
        show ?thesis
        proof (cases "pending s = []")
          case True
          with assms BGet Cons StopIteration \<open>int (nstops s + 1) = bam_workers s\<close> show ?thesis
            by (intro stop_last [of q]) (simp_all add: batch_worker_step_def get_nowait_def)
        next
          case False
          show ?thesis
          proof (cases "stack_batch (pending s)")
            case (Inl e)
            with assms BGet Cons StopIteration True False show ?thesis
              by (intro stop_dead [of q e])
                 (auto simp: batch_worker_step_def get_nowait_def take_group_def)
          next
            case (Inr b)
            with assms BGet Cons StopIteration True False show ?thesis
              by (intro stop_group [of q b])
                 (auto simp: batch_worker_step_def get_nowait_def take_group_def)
          qed
        qed
      qed
    next
      case (Item x)
      show ?thesis
      proof (cases "int (length (pending s @ [x])) = batch_size s")
        case False
        with assms BGet Cons Item show ?thesis
          by (intro item_more [of x q]) (simp_all add: batch_worker_step_def get_nowait_def)
      next
        case True
        show ?thesis
        proof (cases "stack_batch (pending s @ [x])")
          case (Inl e)
          with assms BGet Cons Item True show ?thesis
            by (intro item_dead [of x q e])
               (auto simp: batch_worker_step_def get_nowait_def take_group_def)
        next
          case (Inr b)
          with assms BGet Cons Item True show ?thesis
            by (intro item_group [of x q b])
               (auto simp: batch_worker_step_def get_nowait_def take_group_def)
        qed
      qed
    qed
  qed
next
  case (BPut b)
  with assms show ?thesis
    by (intro put_batch [of b]) (simp_all add: batch_worker_step_def put_def split: if_splits)
next
  case BPutStop
  with assms show ?thesis
    by (intro put_stop) (simp_all add: batch_worker_step_def put_def split: if_splits)
next
  case BDone
  with assms show ?thesis by (simp add: batch_worker_step_def)
next
  case (BDead e)
  with assms show ?thesis by (simp add: batch_worker_step_def)
qed

lemma next_step_cases [consumes 1, case_names batch stop_iteration]:
  assumes "next_step s = Some s'"
  obtains
    (batch) b q where "\<not> stopped s" "items (batches_q s) = Item b # q"
      "s' = s\<lparr>batches_q := (batches_q s)\<lparr>items := q\<rparr>, received := received s @ [b]\<rparr>"
  | (stop_iteration) q where "\<not> stopped s" "items (batches_q s) = StopIteration # q"
      "s' = s\<lparr>batches_q := (batches_q s)\<lparr>items := q\<rparr>, stopped := True\<rparr>"
proof (cases "items (batches_q s)")
  case Nil
  with assms show ?thesis by (simp add: next_step_def get_nowait_def split: if_splits)
next
  case (Cons res q)
  show ?thesis
  proof (cases res)
    case (Item b)
    with assms Cons show ?thesis
      by (intro batch [of b q]) (simp_all add: next_step_def get_nowait_def split: if_splits)
  next
    case StopIteration
    with assms Cons show ?thesis
      by (intro stop_iteration [of q]) (simp_all add: next_step_def get_nowait_def split: if_splits)
  qed
qed

section \<open>Counting sentinels\<close>

lemma count_list_update:
  "i < length xs \<Longrightarrow>
   count_list (xs[i := y]) a + (if xs ! i = a then 1 else 0) =
   count_list xs a + (if y = a then 1 else 0)"
proof (induction xs arbitrary: i)
  case Nil
  then show ?case by simp
next
  case (Cons x xs)
  show ?case
  proof (cases i)
    case 0
    then show ?thesis by simp
  next
    case (Suc j)
    with Cons.prems have "j < length xs" by simp
    from Cons.IH [OF this] Suc show ?thesis by (auto split: if_splits)
  qed
qed

lemma count_list_le_length: "count_list xs a \<le> length xs"
  by (induction xs) auto

lemma count_list_lt_length: "i < length xs \<Longrightarrow> xs ! i \<noteq> a \<Longrightarrow> count_list xs a < length xs"
proof (induction xs arbitrary: i)
  case Nil
  then show ?case by simp
next
  case (Cons x xs)
  show ?case
  proof (cases i)
    case 0
    with Cons.prems count_list_le_length [of xs a] show ?thesis by simp
  next
    case (Suc j)
    with Cons.prems have "j < length xs" "xs ! j \<noteq> a" by simp_all
    from Cons.IH [OF this] show ?thesis by simp
  qed
qed

lemma returned_update:
  "w < length (sample_workers s) \<Longrightarrow> sample_workers s ! w \<noteq> WDone \<Longrightarrow>
   count_list ((sample_workers s)[w := x]) WDone = returned s + (if x = WDone then 1 else 0)"
  using count_list_update [of w "sample_workers s" x WDone] by (simp add: returned_def)

lemma worker_static: "region_worker rr w s = Some s' \<Longrightarrow> static s' = static s"
  by (cases rule: region_worker_cases) (auto simp: static_def)

lemma batcher_static: "batch_worker_step s = Some s' \<Longrightarrow> static s' = static s"
  by (cases rule: batch_worker_step_cases) (auto simp: static_def)

lemma next_static: "next_step s = Some s' \<Longrightarrow> static s' = static s"
  by (cases rule: next_step_cases) (auto simp: static_def)

lemma step_static: "step rr t s = Some s' \<Longrightarrow> static s' = static s"
  by (cases t) (auto simp: step_def dest: worker_static batcher_static next_static)



lemma next_counting:
  assumes "counting s" and "next_step s = Some s'"
  shows "counting s'"
  using assms(2,1)
  by (cases rule: next_step_cases) (auto simp: counting_def posted_def returned_def)

lemma batcher_counting:
  assumes "counting s" and "batch_worker_step s = Some s'"
  shows "counting s'"
  using assms(2,1)
  by (cases rule: batch_worker_step_cases)
     (auto simp: counting_def posted_def returned_def)


lemma worker_counting:
  assumes "counting s" and "region_worker rr w s = Some s'"
  shows "counting s'"
  using assms(2)
proof (cases rule: region_worker_cases)
  case get_empty
  with assms(1) count_list_update [of w "sample_workers s" WStop WDone] show ?thesis
    by (simp add: counting_def posted_def returned_def)
next
  case (get_dead r rs e)
  with assms(1) count_list_update [of w "sample_workers s" "WDead e" WDone] show ?thesis
    by (simp add: counting_def posted_def returned_def)
next
  case (get_region r rs samples remain)
  with assms(1) count_list_update [of w "sample_workers s" "WPush samples remain" WDone]
  show ?thesis
    by (simp add: counting_def posted_def returned_def)
next
  case stop
  with assms(1) count_list_update [of w "sample_workers s" WDone WDone] show ?thesis
    by (simp add: counting_def posted_def returned_def)
next
  case (push_done remain)
  with assms(1) count_list_update [of w "sample_workers s" WGet WDone] show ?thesis
    by (simp add: counting_def posted_def returned_def)
next
  case (push x xs remain)
  with assms(1) count_list_update [of w "sample_workers s" "WPush xs remain" WDone]
  show ?thesis
    by (simp add: counting_def posted_def returned_def)
qed


lemma step_counting: "counting s \<Longrightarrow> step rr t s = Some s' \<Longrightarrow> counting s'"
  by (cases t) (auto simp: step_def intro: worker_counting batcher_counting next_counting)

lemma init_counting: "counting (DataLoader_init regions bsize cache n)"
  by (simp add: counting_def posted_def returned_def DataLoader_init_def Queue_def)

lemma init_static:
  "static (DataLoader_init regions bsize cache n) = (bsize, n, cache * bsize, 0, nat n)"
  by (simp add: static_def DataLoader_init_def Queue_def)

lemma run_counting: "counting (run rr sched (DataLoader_init regions bsize cache n))"
  by (rule run_invariant [where P = counting]) (simp_all add: init_counting step_counting)

lemma run_static:
  "static (run rr sched (DataLoader_init regions bsize cache n)) = (bsize, n, cache * bsize, 0, nat n)"
  by (rule run_invariant [where P = "\<lambda>s. static s = (bsize, n, cache * bsize, 0, nat n)"])
     (simp_all add: init_static step_static)

section \<open>The batch queue\<close>

lemmas eval_defs = run_def advance_def step_def region_worker_def batch_worker_step_def
  next_step_def put_def get_nowait_def take_group_def DataLoader_init_def Queue_def full_def
  stack_batch_def np_stack_def rows_def row_def amend_def Let_def

lemma run_batches_unbounded:
  "maxsize (batches_q (run rr sched (DataLoader_init regions bsize cache n))) = 0"
  using run_static [of rr sched regions bsize cache n] by (simp add: static_def)

text \<open>
  C1 (amended). The batch queue is created with \<open>maxsize = 0\<close>, which for Python's queue
  is no bound: in every state of every run it is not full, so the batcher's put of a batch
  never waits for the caller.
\<close>

theorem batch_queue_never_blocks:
  "maxsize (batches_q (run rr sched (DataLoader_init regions bsize cache n))) = 0 \<and>
   \<not> full (batches_q (run rr sched (DataLoader_init regions bsize cache n))) \<and>
   put x (batches_q (run rr sched (DataLoader_init regions bsize cache n))) \<noteq> None"
  by (simp add: run_batches_unbounded full_def put_def)

text \<open>
  C1 (as stated) fails: one region of two samples, batch size 1, one worker; after the
  worker and the batcher have run, two batches sit in the batch queue and the caller has
  taken none.
\<close>

theorem two_batches_in_flight:
  "items (batches_q (run (\<lambda>r. Inr ([\<lparr>meta = 0::nat, features = \<lparr>shape = [1], elems = [5::int]\<rparr>\<rparr>,
                                      \<lparr>meta = 1, features = \<lparr>shape = [1], elems = [6]\<rparr>\<rparr>], []))
        [Sample 0, Sample 0, Sample 0, Batcher, Batcher, Batcher, Batcher]
        (DataLoader_init [()] 1 8 1 :: (unit, nat, int, unit) loader))) =
     [Item ([\<lparr>meta = 0, features = \<lparr>shape = [1], elems = [5]\<rparr>\<rparr>], \<lparr>shape = [1, 1], elems = [5]\<rparr>),
      Item ([\<lparr>meta = 1, features = \<lparr>shape = [1], elems = [6]\<rparr>\<rparr>], \<lparr>shape = [1, 1], elems = [6]\<rparr>)] \<and>
   received (run (\<lambda>r. Inr ([\<lparr>meta = 0::nat, features = \<lparr>shape = [1], elems = [5::int]\<rparr>\<rparr>,
                                      \<lparr>meta = 1, features = \<lparr>shape = [1], elems = [6]\<rparr>\<rparr>], []))
        [Sample 0, Sample 0, Sample 0, Batcher, Batcher, Batcher, Batcher]
        (DataLoader_init [()] 1 8 1 :: (unit, nat, int, unit) loader)) = []"
  by (simp add: eval_defs)

lemma set_update_cases: "x \<in> set (xs[i := y]) \<Longrightarrow> x = y \<or> x \<in> set xs"
  using set_update_subset_insert [of xs i y] by auto

lemma worker_drained:
  assumes "drained s" and "region_worker rr w s = Some s'"
  shows "drained s'"
  using assms(2)
proof (cases rule: region_worker_cases)
  case get_empty
  then show ?thesis by (simp add: drained_def)
next
  case (get_dead r rs e)
  with assms(1) show ?thesis by (auto simp: drained_def dest!: set_update_cases)
next
  case (get_region r rs samples remain)
  with assms(1) show ?thesis by (auto simp: drained_def dest!: set_update_cases)
next
  case stop
  with assms(1) nth_mem [of w "sample_workers s"] show ?thesis
    by (auto simp: drained_def)
next
  case (push_done remain)
  with assms(1) show ?thesis by (auto simp: drained_def dest!: set_update_cases)
next
  case (push x xs remain)
  with assms(1) show ?thesis by (auto simp: drained_def dest!: set_update_cases)
qed

lemma step_drained: "drained s \<Longrightarrow> step rr t s = Some s' \<Longrightarrow> drained s'"
proof (cases t)
  case (Sample w)
  assume "drained s" "step rr t s = Some s'"
  with Sample show ?thesis by (auto simp: step_def intro: worker_drained)
next
  case Batcher
  assume "drained s" "step rr t s = Some s'"
  with Batcher have "batch_worker_step s = Some s'" by (simp add: step_def)
  then show ?thesis using \<open>drained s\<close>
    by (cases rule: batch_worker_step_cases) (auto simp: drained_def)
next
  case Consumer
  assume "drained s" "step rr t s = Some s'"
  with Consumer have "next_step s = Some s'" by (simp add: step_def)
  then show ?thesis using \<open>drained s\<close>
    by (cases rule: next_step_cases) (auto simp: drained_def)
qed

lemma run_drained: "drained (run rr sched (DataLoader_init regions bsize cache n))"
  by (rule run_invariant [where P = drained])
     (simp_all add: step_drained, simp add: drained_def DataLoader_init_def Queue_def)

lemma run_workers_length:
  "length (sample_workers (run rr sched (DataLoader_init regions bsize cache n))) = nat n"
  using run_static [of rr sched regions bsize cache n] by (simp add: static_def)

lemma run_bam_workers:
  "bam_workers (run rr sched (DataLoader_init regions bsize cache n)) = n"
  using run_static [of rr sched regions bsize cache n] by (simp add: static_def)

text \<open>
  C2. With \<open>N > 0\<close> workers, in every state of every run (any interleaving): the sentinels
  posted so far are exactly as many as the workers that have returned, one each, at most
  \<open>N\<close>; none is posted while the intake still holds a region; and \<open>_get_samples\<close> has
  ended the merged stream exactly when it has counted \<open>N\<close> sentinels.
\<close>

theorem sentinel_protocol:
  assumes "0 < n"
  shows "posted (run rr sched (DataLoader_init regions bsize cache n)) =
           returned (run rr sched (DataLoader_init regions bsize cache n)) \<and>
         returned (run rr sched (DataLoader_init regions bsize cache n)) \<le> nat n \<and>
         (exhausted (run rr sched (DataLoader_init regions bsize cache n)) \<longleftrightarrow>
            int (nstops (run rr sched (DataLoader_init regions bsize cache n))) = n) \<and>
         (items (regions_q (run rr sched (DataLoader_init regions bsize cache n))) \<noteq> [] \<longrightarrow>
            posted (run rr sched (DataLoader_init regions bsize cache n)) = 0)"
proof -
  let ?s = "run rr sched (DataLoader_init regions bsize cache n)"
  have c: "counting ?s" by (rule run_counting)
  have d: "drained ?s" by (rule run_drained)
  have l: "length (sample_workers ?s) = nat n" by (rule run_workers_length)
  have b: "bam_workers ?s = n" by (rule run_bam_workers)
  have "returned ?s \<le> nat n"
    using count_list_le_length [of "sample_workers ?s" WDone] l by (simp add: returned_def)
  moreover have "items (regions_q ?s) \<noteq> [] \<longrightarrow> posted ?s = 0"
    using c d by (auto simp: counting_def drained_def returned_def count_list_0_iff)
  ultimately show ?thesis using c b assms by (simp add: counting_def)
qed

theorem sentinel_protocol_witness:
  "(0::int) < 2 \<and>
   posted (run (\<lambda>r. Inl RegionError) [Sample 0, Sample 1, Sample 0, Sample 1, Batcher, Batcher]
     (DataLoader_init [] 1 8 2 :: (unit, nat, int, unit) loader)) = 2 \<and>
   returned (run (\<lambda>r. Inl RegionError) [Sample 0, Sample 1, Sample 0, Sample 1, Batcher, Batcher]
     (DataLoader_init [] 1 8 2 :: (unit, nat, int, unit) loader)) = 2 \<and>
   exhausted (run (\<lambda>r. Inl RegionError) [Sample 0, Sample 1, Sample 0, Sample 1, Batcher, Batcher]
     (DataLoader_init [] 1 8 2 :: (unit, nat, int, unit) loader)) \<and>
   nstops (run (\<lambda>r. Inl RegionError) [Sample 0, Sample 1, Sample 0, Sample 1, Batcher, Batcher]
     (DataLoader_init [] 1 8 2 :: (unit, nat, int, unit) loader)) = 2"
  using sentinel_protocol [of 2 "\<lambda>r. Inl RegionError"
      "[Sample 0, Sample 1, Sample 0, Sample 1, Batcher, Batcher]" "[]" 1 8]
  by (simp add: eval_defs posted_def returned_def numeral_2_eq_2)

section \<open>A worker killed by an exception\<close>

lemma worker_dead_stays:
  assumes "w < length (sample_workers s)" and "sample_workers s ! w = WDead e"
    and "step rr t s = Some s'"
  shows "w < length (sample_workers s') \<and> sample_workers s' ! w = WDead e"
proof (cases t)
  case (Sample v)
  with assms(3) have st: "region_worker rr v s = Some s'" by (simp add: step_def)
  have "v \<noteq> w"
  proof
    assume "v = w"
    with st assms(1,2) show False by (simp add: region_worker_def)
  qed
  with st assms(1,2) show ?thesis
    by (cases rule: region_worker_cases) simp_all
next
  case Batcher
  with assms(3) have "batch_worker_step s = Some s'" by (simp add: step_def)
  then show ?thesis using assms(1,2)
    by (cases rule: batch_worker_step_cases) simp_all
next
  case Consumer
  with assms(3) have "next_step s = Some s'" by (simp add: step_def)
  then show ?thesis using assms(1,2)
    by (cases rule: next_step_cases) simp_all
qed

lemma run_dead_stays:
  assumes "w < length (sample_workers s) \<and> sample_workers s ! w = WDead e"
  shows "w < length (sample_workers (run rr sched s)) \<and> sample_workers (run rr sched s) ! w = WDead e"
  by (rule run_invariant [where P = "\<lambda>s. w < length (sample_workers s) \<and> sample_workers s ! w = WDead e"])
     (use assms worker_dead_stays in blast)+

text \<open>
  C6 (amended). The worker has no cleanup path: once sample generation has raised in a
  worker, that worker stays dead in every continuation of the run, fewer than \<open>N\<close>
  sentinels are ever posted, \<open>_get_samples\<close> never sees its stream exhausted, and the
  pipeline never finishes.
\<close>

theorem dead_worker_starves_batcher:
  assumes "w < length (sample_workers (run rr sched (DataLoader_init regions bsize cache n)))"
    and "sample_workers (run rr sched (DataLoader_init regions bsize cache n)) ! w = WDead e"
  shows "sample_workers (run rr (sched @ sched') (DataLoader_init regions bsize cache n)) ! w = WDead e \<and>
         posted (run rr (sched @ sched') (DataLoader_init regions bsize cache n)) < nat n \<and>
         \<not> exhausted (run rr (sched @ sched') (DataLoader_init regions bsize cache n)) \<and>
         \<not> finished (run rr (sched @ sched') (DataLoader_init regions bsize cache n))"
proof -
  let ?s = "run rr (sched @ sched') (DataLoader_init regions bsize cache n)"
  have d: "w < length (sample_workers ?s) \<and> sample_workers ?s ! w = WDead e"
    using run_dead_stays [of w "run rr sched (DataLoader_init regions bsize cache n)" e rr sched'] assms
    by (simp add: run_append)
  have c: "counting ?s" by (rule run_counting)
  have l: "length (sample_workers ?s) = nat n" by (rule run_workers_length)
  have b: "bam_workers ?s = n" by (rule run_bam_workers)
  from d have "returned ?s < length (sample_workers ?s)"
    using count_list_lt_length [of w "sample_workers ?s" WDone] by (simp add: returned_def)
  with c l have p: "posted ?s < nat n" by (simp add: counting_def)
  then have "int (nstops ?s) \<noteq> n" by (simp add: posted_def)
  with c b have e: "\<not> exhausted ?s" by (simp add: counting_def)
  from d have "\<not> list_all (\<lambda>w. w = WDone) (sample_workers ?s)"
    by (auto simp: list_all_length)
  then have "\<not> finished ?s" by (simp add: finished_def)
  with d p e show ?thesis by simp
qed

theorem dead_worker_starves_batcher_witness:
  "sample_workers (run (\<lambda>r. Inl RegionError) ([Sample 0] @ [Sample 1, Sample 1, Batcher, Consumer, Sample 0])
      (DataLoader_init [()] 1 8 2 :: (unit, nat, int, unit) loader)) ! 0 = WDead RegionError \<and>
   posted (run (\<lambda>r. Inl RegionError) ([Sample 0] @ [Sample 1, Sample 1, Batcher, Consumer, Sample 0])
      (DataLoader_init [()] 1 8 2 :: (unit, nat, int, unit) loader)) < nat 2 \<and>
   \<not> exhausted (run (\<lambda>r. Inl RegionError) ([Sample 0] @ [Sample 1, Sample 1, Batcher, Consumer, Sample 0])
      (DataLoader_init [()] 1 8 2 :: (unit, nat, int, unit) loader)) \<and>
   \<not> finished (run (\<lambda>r. Inl RegionError) ([Sample 0] @ [Sample 1, Sample 1, Batcher, Consumer, Sample 0])
      (DataLoader_init [()] 1 8 2 :: (unit, nat, int, unit) loader))"
proof -
  have "sample_workers (run (\<lambda>r. Inl RegionError) [Sample 0]
      (DataLoader_init [()] 1 8 2 :: (unit, nat, int, unit) loader)) = [WDead RegionError, WGet]"
    by (simp add: eval_defs numeral_2_eq_2)
  then have a: "0 < length (sample_workers (run (\<lambda>r. Inl RegionError) [Sample 0]
      (DataLoader_init [()] 1 8 2 :: (unit, nat, int, unit) loader)))"
    and b: "sample_workers (run (\<lambda>r. Inl RegionError) [Sample 0]
      (DataLoader_init [()] 1 8 2 :: (unit, nat, int, unit) loader)) ! 0 = WDead RegionError"
    by simp_all
  from dead_worker_starves_batcher [OF a b, of "[Sample 1, Sample 1, Batcher, Consumer, Sample 0]"]
  show ?thesis by simp
qed

text \<open>
  C6 (as stated) fails: one worker, one region whose sample generation raises. The worker
  dies without a sentinel on the sample queue, and no thread can move any more although
  the pipeline has not finished.
\<close>

theorem dead_worker_deadlock:
  "sample_workers (run (\<lambda>r. Inl RegionError) [Sample 0]
      (DataLoader_init [()] 1 8 1 :: (unit, nat, int, unit) loader)) = [WDead RegionError] \<and>
   items (samples_q (run (\<lambda>r. Inl RegionError) [Sample 0]
      (DataLoader_init [()] 1 8 1 :: (unit, nat, int, unit) loader))) = [] \<and>
   step (\<lambda>r. Inl RegionError) (Sample 0) (run (\<lambda>r. Inl RegionError) [Sample 0]
      (DataLoader_init [()] 1 8 1 :: (unit, nat, int, unit) loader)) = None \<and>
   step (\<lambda>r. Inl RegionError) Batcher (run (\<lambda>r. Inl RegionError) [Sample 0]
      (DataLoader_init [()] 1 8 1 :: (unit, nat, int, unit) loader)) = None \<and>
   step (\<lambda>r. Inl RegionError) Consumer (run (\<lambda>r. Inl RegionError) [Sample 0]
      (DataLoader_init [()] 1 8 1 :: (unit, nat, int, unit) loader)) = None \<and>
   \<not> finished (run (\<lambda>r. Inl RegionError) [Sample 0]
      (DataLoader_init [()] 1 8 1 :: (unit, nat, int, unit) loader))"
  by (simp add: eval_defs finished_def)

section \<open>Every step uses up work\<close>

lemma sum_list_map_update:
  fixes f :: "'a \<Rightarrow> 'b::comm_monoid_add"
  shows "i < length xs \<Longrightarrow>
    sum_list (map f (xs[i := y])) + f (xs ! i) = sum_list (map f xs) + f y"
proof (induction xs arbitrary: i)
  case Nil
  then show ?case by simp
next
  case (Cons x xs)
  show ?case
  proof (cases i)
    case 0
    then show ?thesis by (simp add: ac_simps)
  next
    case (Suc j)
    with Cons.prems have "j < length xs" by simp
    from Cons.IH [OF this] Suc show ?thesis by (simp add: ac_simps)
  qed
qed

lemma worker_work:
  assumes "region_worker rr w s = Some s'"
  shows "work rr s' < work rr s"
  using assms
proof (cases rule: region_worker_cases)
  case get_empty
  with sum_list_map_update [of w "sample_workers s" worker_cost WStop] show ?thesis
    by (simp add: work_def)
next
  case (get_dead r rs e)
  with sum_list_map_update [of w "sample_workers s" worker_cost "WDead e"] show ?thesis
    by (simp add: work_def region_cost_def samples_of_def)
next
  case (get_region r rs samples remain)
  with sum_list_map_update [of w "sample_workers s" worker_cost "WPush samples remain"] show ?thesis
    by (simp add: work_def region_cost_def samples_of_def)
next
  case stop
  with sum_list_map_update [of w "sample_workers s" worker_cost WDone] show ?thesis
    by (simp add: work_def)
next
  case (push_done remain)
  with sum_list_map_update [of w "sample_workers s" worker_cost WGet] show ?thesis
    by (simp add: work_def)
next
  case (push x xs remain)
  with sum_list_map_update [of w "sample_workers s" worker_cost "WPush xs remain"] show ?thesis
    by (simp add: work_def)
qed

lemma batcher_work:
  assumes "batch_worker_step s = Some s'"
  shows "work rr s' < work rr s"
  using assms
  by (cases rule: batch_worker_step_cases) (auto simp: work_def neq_Nil_conv)

lemma next_work:
  assumes "next_step s = Some s'"
  shows "work rr s' < work rr s"
  using assms
  by (cases rule: next_step_cases) (auto simp: work_def)

lemma step_work: "step rr t s = Some s' \<Longrightarrow> work rr s' < work rr s"
  by (cases t) (auto simp: step_def intro: worker_work batcher_work next_work)

section \<open>Nothing fails on good regions\<close>

lemma list_all_update: "list_all P xs \<Longrightarrow> P y \<Longrightarrow> list_all P (xs[i := y])"
  by (induction xs arbitrary: i) (auto split: nat.splits)

lemma list_all_update_nth: "i < length xs \<Longrightarrow> list_all P (xs[i := y]) \<Longrightarrow> P y"
  by (metis length_list_update list_all_length nth_list_update_eq)

lemma list_all_nth: "list_all P xs \<Longrightarrow> i < length xs \<Longrightarrow> P (xs ! i)"
  by (simp add: list_all_length)

lemma worker_uniform:
  assumes "uniform rr shp s" and "region_worker rr w s = Some s'"
  shows "uniform rr shp s'"
  using assms(2)
proof (cases rule: region_worker_cases)
  case get_empty
  with assms(1) show ?thesis by (simp add: uniform_def list_all_update)
next
  case (get_dead r rs e)
  with assms(1) show ?thesis by (simp add: uniform_def good_region_def)
next
  case (get_region r rs samples remain)
  with assms(1) show ?thesis by (simp add: uniform_def good_region_def list_all_update)
next
  case stop
  with assms(1) show ?thesis by (simp add: uniform_def list_all_update)
next
  case (push_done remain)
  with assms(1) show ?thesis by (simp add: uniform_def list_all_update)
next
  case (push x xs remain)
  with assms(1) have "worker_ok (batch_size s) shp (WPush (x # xs) remain)"
    using list_all_nth [of "worker_ok (batch_size s) shp" "sample_workers s" w]
    by (simp add: uniform_def)
  with assms(1) push show ?thesis by (simp add: uniform_def list_all_update)
qed

lemma batcher_uniform:
  assumes "uniform rr shp s" and "batch_worker_step s = Some s'"
  shows "uniform rr shp s'"
  using assms(2)
proof (cases rule: batch_worker_step_cases)
  case (stop_dead q e)
  with assms(1) stack_batch_ok [of "batch_size s" shp "pending s"] show ?thesis
    by (auto simp: uniform_def)
next
  case (item_dead x q e)
  with assms(1) stack_batch_ok [of "batch_size s" shp "pending s @ [x]"] show ?thesis
    by (auto simp: uniform_def)
qed (use assms(1) in \<open>auto simp: uniform_def\<close>)

lemma next_uniform:
  assumes "uniform rr shp s" and "next_step s = Some s'"
  shows "uniform rr shp s'"
  using assms(2,1)
  by (cases rule: next_step_cases) (auto simp: uniform_def)

lemma step_uniform: "uniform rr shp s \<Longrightarrow> step rr t s = Some s' \<Longrightarrow> uniform rr shp s'"
  by (cases t) (auto simp: step_def intro: worker_uniform batcher_uniform next_uniform)

lemma init_uniform:
  "0 < bsize \<Longrightarrow> list_all (good_region rr bsize shp) regions \<Longrightarrow>
   uniform rr shp (DataLoader_init regions bsize cache n)"
  by (simp add: uniform_def DataLoader_init_def Queue_def list_all_length)

lemma run_uniform:
  "0 < bsize \<Longrightarrow> list_all (good_region rr bsize shp) regions \<Longrightarrow>
   uniform rr shp (run rr sched (DataLoader_init regions bsize cache n))"
  by (rule run_invariant [where P = "uniform rr shp"]) (simp_all add: init_uniform step_uniform)

section \<open>Closing down\<close>

lemma worker_closing:
  assumes "closing s" and "region_worker rr w s = Some s'"
  shows "closing s'"
  using assms(2)
proof (cases rule: region_worker_cases)
  case get_empty
  with assms(1) list_all_update_nth [of w "sample_workers s" "\<lambda>w. w = WDone" WStop]
  show ?thesis by (auto simp: closing_def)
next
  case (get_dead r rs e)
  with assms(1) list_all_update_nth [of w "sample_workers s" "\<lambda>w. w = WDone" "WDead e"]
  show ?thesis by (auto simp: closing_def)
next
  case (get_region r rs samples remain)
  with assms(1) list_all_update_nth [of w "sample_workers s" "\<lambda>w. w = WDone" "WPush samples remain"]
  show ?thesis by (auto simp: closing_def)
next
  case stop
  with assms(1) show ?thesis by (auto simp: closing_def)
next
  case (push_done remain)
  with assms(1) list_all_update_nth [of w "sample_workers s" "\<lambda>w. w = WDone" WGet]
  show ?thesis by (auto simp: closing_def)
next
  case (push x xs remain)
  with assms(1) list_all_update_nth [of w "sample_workers s" "\<lambda>w. w = WDone" "WPush xs remain"]
  show ?thesis by (auto simp: closing_def)
qed

lemma last_tl: "xs = x # q \<Longrightarrow> last xs = a \<Longrightarrow> q = [] \<or> last q = a"
  by (cases q) auto

lemma batcher_closing:
  assumes "closing s" and "batch_worker_step s = Some s'"
  shows "closing s'"
  using assms(2)
proof (cases rule: batch_worker_step_cases)
  case (stop_more q)
  with assms(1) last_tl [of "items (samples_q s)" StopIteration q StopIteration]
  show ?thesis by (auto simp: closing_def)
next
  case (stop_last q)
  with assms(1) last_tl [of "items (samples_q s)" StopIteration q StopIteration]
  show ?thesis by (auto simp: closing_def)
next
  case (stop_group q b)
  with assms(1) last_tl [of "items (samples_q s)" StopIteration q StopIteration]
  show ?thesis by (auto simp: closing_def)
next
  case (stop_dead q e)
  with assms(1) last_tl [of "items (samples_q s)" StopIteration q StopIteration]
  show ?thesis by (auto simp: closing_def)
next
  case (item_more x q)
  with assms(1) last_tl [of "items (samples_q s)" "Item x" q StopIteration]
  show ?thesis by (auto simp: closing_def)
next
  case (item_group x q b)
  with assms(1) last_tl [of "items (samples_q s)" "Item x" q StopIteration]
  show ?thesis by (auto simp: closing_def)
next
  case (item_dead x q e)
  with assms(1) last_tl [of "items (samples_q s)" "Item x" q StopIteration]
  show ?thesis by (auto simp: closing_def)
next
  case (put_batch b)
  with assms(1) show ?thesis by (auto simp: closing_def butlast_append)
next
  case put_stop
  with assms(1) show ?thesis by (auto simp: closing_def)
qed

lemma next_closing:
  assumes "closing s" and "next_step s = Some s'"
  shows "closing s'"
  using assms(2)
proof (cases rule: next_step_cases)
  case (batch b q)
  with assms(1) show ?thesis by (auto simp: closing_def split: if_splits)
next
  case (stop_iteration q)
  with assms(1) show ?thesis by (auto simp: closing_def split: if_splits)
qed

lemma step_closing: "closing s \<Longrightarrow> step rr t s = Some s' \<Longrightarrow> closing s'"
  by (cases t) (auto simp: step_def intro: worker_closing batcher_closing next_closing)

lemma init_closing: "closing (DataLoader_init regions bsize cache n)"
  by (simp add: closing_def DataLoader_init_def Queue_def)

lemma run_closing: "closing (run rr sched (DataLoader_init regions bsize cache n))"
  by (rule run_invariant [where P = closing]) (simp_all add: init_closing step_closing)

section \<open>No deadlock\<close>

lemma worker_enabled:
  assumes "w < length (sample_workers s)"
    and "sample_workers s ! w = WGet \<or> (\<exists>remain. sample_workers s ! w = WPush [] remain) \<or>
         (\<not> full (samples_q s) \<and> sample_workers s ! w \<noteq> WDone \<and>
          (\<forall>e. sample_workers s ! w \<noteq> WDead e))"
  shows "region_worker rr w s \<noteq> None"
  using assms
  by (cases "sample_workers s ! w")
     (auto simp: region_worker_def put_def get_nowait_def
           split: list.splits sum.splits prod.splits)

lemma batcher_enabled:
  assumes "(bthread s = BGet \<and> items (samples_q s) \<noteq> []) \<or>
           (\<not> full (batches_q s) \<and> ((\<exists>b. bthread s = BPut b) \<or> bthread s = BPutStop))"
  shows "batch_worker_step s \<noteq> None"
  using assms
  by (cases "bthread s")
     (auto simp: batch_worker_step_def put_def get_nowait_def Let_def
           split: list.splits item.splits)

lemma next_enabled:
  assumes "\<not> stopped s" and "items (batches_q s) \<noteq> []"
  shows "next_step s \<noteq> None"
  using assms
  by (auto simp: next_step_def get_nowait_def split: list.splits item.splits)

lemma count_list_full: "count_list xs a = length xs \<Longrightarrow> list_all (\<lambda>x. x = a) xs"
proof (induction xs)
  case Nil
  then show ?case by simp
next
  case (Cons x xs)
  with count_list_le_length [of xs a] show ?case by (auto split: if_splits)
qed

lemma list_all_count: "list_all (\<lambda>x. x = a) xs \<Longrightarrow> count_list xs a = length xs"
  by (induction xs) auto

lemma progress:
  assumes c: "counting s" and cl: "closing s" and u: "uniform rr shp s"
    and len: "length (sample_workers s) = nat (bam_workers s)" and pos: "0 < bam_workers s"
    and unb: "maxsize (batches_q s) = 0" and nf: "\<not> finished s"
  shows "\<exists>t. step rr t s \<noteq> None"
proof -
  have bq: "\<not> full (batches_q s)" using unb by (simp add: full_def)
  have al: "alive (bthread s)" using u by (simp add: uniform_def)
  have batcher_moves: "\<exists>t. step rr t s \<noteq> None" if "items (samples_q s) \<noteq> []" "\<not> exhausted s"
  proof -
    from that(2) cl have nb: "bthread s \<noteq> BPutStop" "bthread s \<noteq> BDone"
      by (auto simp: closing_def)
    have "batch_worker_step s \<noteq> None"
    proof (cases "bthread s")
      case BGet
      with that(1) show ?thesis by (intro batcher_enabled) simp
    next
      case (BPut b)
      with bq show ?thesis by (intro batcher_enabled) simp
    next
      case (BDead e)
      with al show ?thesis by simp
    qed (use nb in simp_all)
    then have "step rr Batcher s \<noteq> None" by (simp add: step_def)
    then show ?thesis ..
  qed
  show ?thesis
  proof (cases "list_all (\<lambda>w. w = WDone) (sample_workers s)")
    case False
    then obtain w where w: "w < length (sample_workers s)" "sample_workers s ! w \<noteq> WDone"
      by (auto simp: list_all_length)
    from u w have nd: "\<forall>e. sample_workers s ! w \<noteq> WDead e"
      using list_all_nth [of "worker_ok (batch_size s) shp" "sample_workers s" w]
      by (auto simp: uniform_def)
    from w have "returned s < length (sample_workers s)"
      using count_list_lt_length [of w "sample_workers s" WDone] by (simp add: returned_def)
    with c len have "int (nstops s) \<noteq> bam_workers s" by (auto simp: counting_def posted_def)
    with c have ne: "\<not> exhausted s" by (simp add: counting_def)
    show ?thesis
    proof (cases "full (samples_q s)")
      case False
      with w nd have "region_worker rr w s \<noteq> None" by (intro worker_enabled) simp_all
      then have "step rr (Sample w) s \<noteq> None" by (simp add: step_def)
      then show ?thesis ..
    next
      case True
      then have "items (samples_q s) \<noteq> []" by (auto simp: full_def)
      from batcher_moves [OF this ne] show ?thesis .
    qed
  next
    case True
    then have "returned s = length (sample_workers s)"
      by (simp add: returned_def list_all_count)
    with c len pos have p: "int (posted s) = bam_workers s" by (auto simp: counting_def)
    show ?thesis
    proof (cases "exhausted s")
      case False
      with c pos have "int (nstops s) \<noteq> bam_workers s" by (auto simp: counting_def)
      with p have "items (samples_q s) \<noteq> []" by (auto simp: posted_def)
      from batcher_moves [OF this False] show ?thesis .
    next
      case ex: True
      with c have ng: "bthread s \<noteq> BGet" by (simp add: counting_def)
      show ?thesis
      proof (cases "bthread s = BDone")
        case False
        with ng al bq have "batch_worker_step s \<noteq> None"
          by (cases "bthread s") (simp_all add: batcher_enabled)
        then have "step rr Batcher s \<noteq> None" by (simp add: step_def)
        then show ?thesis ..
      next
        case bd: True
        with nf True have "\<not> stopped s" by (simp add: finished_def)
        with cl bd have "next_step s \<noteq> None"
          by (intro next_enabled) (auto simp: closing_def)
        then have "step rr Consumer s \<noteq> None" by (simp add: step_def)
        then show ?thesis ..
      qed
    qed
  qed
qed

section \<open>Completion\<close>

lemma step_healthy:
  assumes "healthy rr shp s" and "step rr t s = Some s'"
  shows "healthy rr shp s'"
proof -
  from assms(2) have "static s' = static s" by (rule step_static)
  with assms show ?thesis
    by (auto simp: healthy_def static_def
             intro: step_counting step_closing step_drained step_uniform)
qed

lemma init_healthy:
  assumes "0 < n" and "0 < bsize" and "list_all (good_region rr bsize shp) regions"
  shows "healthy rr shp (DataLoader_init regions bsize cache n)"
proof -
  have "drained (DataLoader_init regions bsize cache n)"
    by (simp add: drained_def DataLoader_init_def Queue_def)
  moreover have "static (DataLoader_init regions bsize cache n) = (bsize, n, cache * bsize, 0, nat n)"
    by (rule init_static)
  ultimately show ?thesis using assms
    by (auto simp: healthy_def init_counting init_closing init_uniform static_def)
qed

lemma run_healthy:
  assumes "healthy rr shp s"
  shows "healthy rr shp (run rr sched s)"
  by (rule run_invariant [where P = "healthy rr shp"]) (use assms step_healthy in blast)+

lemma healthy_progress:
  assumes "healthy rr shp s" and "\<not> finished s"
  shows "\<exists>t s'. step rr t s = Some s'"
  using progress [of s rr shp] assms by (auto simp: healthy_def)

lemma healthy_completes:
  assumes "healthy rr shp s"
  shows "\<exists>sched. finished (run rr sched s)"
  using assms
proof (induction "work rr s" arbitrary: s rule: less_induct)
  case less
  show ?case
  proof (cases "finished s")
    case True
    then have "finished (run rr [] s)" by (simp add: run_def)
    then show ?thesis ..
  next
    case False
    with less.prems obtain t s' where st: "step rr t s = Some s'"
      using healthy_progress by blast
    then have "work rr s' < work rr s" by (rule step_work)
    moreover have "healthy rr shp s'" using less.prems st by (rule step_healthy)
    ultimately obtain sched where "finished (run rr sched s')"
      using less.hyps by blast
    with st have "finished (run rr (t # sched) s)" by (simp add: run_Cons advance_def)
    then show ?thesis ..
  qed
qed

section \<open>An empty region list\<close>

lemma payloads_append: "payloads (xs @ ys) = payloads xs @ payloads ys"
  by (induction xs rule: payloads.induct) auto

lemma worker_idle:
  assumes "idle s" and "region_worker rr w s = Some s'"
  shows "idle s'"
  using assms(2)
proof (cases rule: region_worker_cases)
  case (push_done remain)
  with assms(1) list_all_nth [of idle_worker "sample_workers s" w] show ?thesis
    by (simp add: idle_def)
next
  case (push x xs remain)
  with assms(1) list_all_nth [of idle_worker "sample_workers s" w] show ?thesis
    by (simp add: idle_def)
qed (use assms(1) in \<open>simp_all add: idle_def list_all_update payloads_append\<close>)

lemma batcher_idle:
  assumes "idle s" and "batch_worker_step s = Some s'"
  shows "idle s'"
  using assms(2,1)
  by (cases rule: batch_worker_step_cases) (auto simp: idle_def payloads_append)

lemma next_idle:
  assumes "idle s" and "next_step s = Some s'"
  shows "idle s'"
  using assms(2,1)
  by (cases rule: next_step_cases) (auto simp: idle_def)

lemma step_idle: "idle s \<Longrightarrow> step rr t s = Some s' \<Longrightarrow> idle s'"
  by (cases t) (auto simp: step_def intro: worker_idle batcher_idle next_idle)

lemma run_idle: "idle (run rr sched (DataLoader_init [] bsize cache n))"
  by (rule run_invariant [where P = idle])
     (simp_all add: step_idle, simp add: idle_def DataLoader_init_def Queue_def list_all_length)

lemma run_work: "work rr (run rr sched s) \<le> work rr s"
  by (rule run_invariant [where P = "\<lambda>s'. work rr s' \<le> work rr s"])
     (use step_work in fastforce)+

lemma init_work: "work rr (DataLoader_init [] bsize cache n) = 3 * nat n + 2"
  by (simp add: work_def DataLoader_init_def Queue_def sum_list_replicate)

text \<open>
  C8. With an empty region list (at least one worker, a positive batch size), in every
  state of every run: no sample is on the sample queue or in a group, no batch has been
  stacked, queued or received; the run can always be completed and is never stuck (while
  it has not finished some thread can move); every step uses up work, of which there are
  \<open>3 N + 2\<close> units at the start (two steps per worker, \<open>N\<close> sentinels popped, the final
  \<open>StopIteration\<close> put and taken), so it ends at once; and when it has finished every
  worker has posted its sentinel and the iteration has ended.
\<close>

theorem empty_region_list:
  fixes rr :: "'r \<Rightarrow> error + ('p, 'e) sample list \<times> 'm list"
  assumes "0 < n" and "0 < bsize"
  shows "payloads (items (samples_q (run rr sched (DataLoader_init [] bsize cache n)))) = [] \<and>
         pending (run rr sched (DataLoader_init [] bsize cache n)) = [] \<and>
         received (run rr sched (DataLoader_init [] bsize cache n)) = [] \<and>
         payloads (items (batches_q (run rr sched (DataLoader_init [] bsize cache n)))) = [] \<and>
         idle_batcher (bthread (run rr sched (DataLoader_init [] bsize cache n))) \<and>
         (\<exists>sched'. finished (run rr (sched @ sched') (DataLoader_init [] bsize cache n))) \<and>
         (\<not> finished (run rr sched (DataLoader_init [] bsize cache n)) \<longrightarrow>
            (\<exists>t s'. step rr t (run rr sched (DataLoader_init [] bsize cache n)) = Some s')) \<and>
         (\<forall>t s'. step rr t (run rr sched (DataLoader_init [] bsize cache n)) = Some s' \<longrightarrow>
            work rr s' < work rr (run rr sched (DataLoader_init [] bsize cache n))) \<and>
         work rr (run rr sched (DataLoader_init [] bsize cache n)) \<le> 3 * nat n + 2 \<and>
         (finished (run rr sched (DataLoader_init [] bsize cache n)) \<longrightarrow>
            posted (run rr sched (DataLoader_init [] bsize cache n)) = nat n \<and>
            stopped (run rr sched (DataLoader_init [] bsize cache n)))"
proof -
  let ?i = "DataLoader_init [] bsize cache n :: ('r, 'p, 'e, 'm) loader"
  let ?s = "run rr sched ?i"
  have i: "idle ?s" by (rule run_idle)
  have "healthy rr [] ?i" using assms by (intro init_healthy) simp_all
  then have h: "healthy rr [] ?s" by (rule run_healthy)
  from h obtain sched' where "finished (run rr sched' ?s)"
    using healthy_completes by blast
  then have f: "\<exists>sched'. finished (run rr (sched @ sched') ?i)"
    by (auto simp: run_append)
  have p: "\<not> finished ?s \<longrightarrow> (\<exists>t s'. step rr t ?s = Some s')"
    using h healthy_progress by blast
  have w: "\<forall>t s'. step rr t ?s = Some s' \<longrightarrow> work rr s' < work rr ?s"
    using step_work by blast
  have b: "work rr ?s \<le> 3 * nat n + 2"
    using run_work [of rr sched ?i] by (simp add: init_work)
  have "finished ?s \<longrightarrow> posted ?s = nat n \<and> stopped ?s"
  proof
    assume fin: "finished ?s"
    then have "returned ?s = length (sample_workers ?s)"
      by (simp add: finished_def returned_def list_all_count)
    with h fin show "posted ?s = nat n \<and> stopped ?s"
      using run_workers_length [of rr sched "[]" bsize cache n]
      by (simp add: healthy_def counting_def finished_def)
  qed
  with i f p w b show ?thesis by (simp add: idle_def)
qed

theorem empty_region_list_witness:
  "(0::int) < 2 \<and> (0::int) < 1 \<and>
   finished (run (\<lambda>r. Inl RegionError)
     [Sample 0, Sample 0, Sample 1, Sample 1, Batcher, Batcher, Batcher, Consumer]
     (DataLoader_init [] 1 8 2 :: (unit, nat, int, unit) loader)) \<and>
   received (run (\<lambda>r. Inl RegionError)
     [Sample 0, Sample 0, Sample 1, Sample 1, Batcher, Batcher, Batcher, Consumer]
     (DataLoader_init [] 1 8 2 :: (unit, nat, int, unit) loader)) = [] \<and>
   posted (run (\<lambda>r. Inl RegionError)
     [Sample 0, Sample 0, Sample 1, Sample 1, Batcher, Batcher, Batcher, Consumer]
     (DataLoader_init [] 1 8 2 :: (unit, nat, int, unit) loader)) = 2 \<and>
   stopped (run (\<lambda>r. Inl RegionError)
     [Sample 0, Sample 0, Sample 1, Sample 1, Batcher, Batcher, Batcher, Consumer]
     (DataLoader_init [] 1 8 2 :: (unit, nat, int, unit) loader))"
proof -
  have "finished (run (\<lambda>r. Inl RegionError)
     [Sample 0, Sample 0, Sample 1, Sample 1, Batcher, Batcher, Batcher, Consumer]
     (DataLoader_init [] 1 8 2 :: (unit, nat, int, unit) loader))"
    by (simp add: eval_defs finished_def numeral_2_eq_2)
  with empty_region_list [where n = 2 and bsize = 1 and cache = 8
      and rr = "\<lambda>r::unit. Inl RegionError :: error + (nat, int) sample list \<times> unit list"
      and sched = "[Sample 0, Sample 0, Sample 1, Sample 1, Batcher, Batcher, Batcher, Consumer]"]
  show ?thesis by simp
qed

section \<open>Nothing lost, nothing twice\<close>

lemma stack_batch_same:
  assumes "uniform rr shp s" and "stack_batch (pending s) = Inr b" and "pending s \<noteq> []"
  shows "fst b = pending s"
  using stack_batch_ok [of "batch_size s" shp "pending s"] assms by (auto simp: uniform_def)

lemma stack_batch_same_snoc:
  assumes "uniform rr shp s" and "items (samples_q s) = Item x # q"
    and "stack_batch (pending s @ [x]) = Inr b"
  shows "fst b = pending s @ [x]"
  using stack_batch_ok [of "batch_size s" shp "pending s @ [x]"] assms by (auto simp: uniform_def)

lemma batcher_merged:
  assumes "uniform rr shp s" and "batch_worker_step s = Some s'"
  shows "merged s' = merged s \<and> remainders s' = remainders s \<and>
         sample_workers s' = sample_workers s \<and> regions_q s' = regions_q s"
  using assms(2)
proof (cases rule: batch_worker_step_cases)
  case (stop_group q b)
  with stack_batch_same [OF assms(1), of b] show ?thesis
    by (simp add: merged_def batched_def)
next
  case (stop_dead q e)
  with assms(1) stack_batch_ok [of "batch_size s" shp "pending s"] show ?thesis
    by (auto simp: uniform_def)
next
  case (item_group x q b)
  with stack_batch_same_snoc [OF assms(1), of x q b] show ?thesis
    by (simp add: merged_def batched_def)
next
  case (item_dead x q e)
  with assms(1) stack_batch_ok [of "batch_size s" shp "pending s @ [x]"] show ?thesis
    by (auto simp: uniform_def)
next
  case (put_batch b)
  then show ?thesis by (simp add: merged_def batched_def payloads_append)
next
  case put_stop
  then show ?thesis by (simp add: merged_def batched_def payloads_append)
qed (simp_all add: merged_def batched_def)

lemma next_merged:
  assumes "next_step s = Some s'"
  shows "merged s' = merged s \<and> remainders s' = remainders s \<and>
         sample_workers s' = sample_workers s \<and> regions_q s' = regions_q s"
  using assms
  by (cases rule: next_step_cases) (simp_all add: merged_def batched_def)

lemma merged_updates:
  "merged (s\<lparr>sample_workers := ws\<rparr>) = merged s"
  "merged (s\<lparr>regions_q := rq\<rparr>) = merged s"
  "merged (s\<lparr>remainders := rm\<rparr>) = merged s"
  "merged (s\<lparr>samples_q := (samples_q s)\<lparr>items := items (samples_q s) @ [Item x]\<rparr>\<rparr>) = merged s @ [x]"
  "merged (s\<lparr>samples_q := (samples_q s)\<lparr>items := items (samples_q s) @ [StopIteration]\<rparr>\<rparr>) = merged s"
  by (simp_all add: merged_def batched_def payloads_append)

lemma sum_list_update_out:
  fixes f :: "'a \<Rightarrow> 'b::cancel_comm_monoid_add"
  assumes "i < length xs" and "f (xs ! i) = f y + d"
  shows "sum_list (map f xs) = sum_list (map f (xs[i := y])) + d"
proof -
  from sum_list_map_update [OF assms(1), of f y] assms(2)
  have "(sum_list (map f (xs[i := y])) + d) + f y = sum_list (map f xs) + f y"
    by (simp add: ac_simps)
  then show ?thesis by simp
qed

lemma sum_list_update_in:
  fixes f :: "'a \<Rightarrow> 'b::cancel_comm_monoid_add"
  assumes "i < length xs" and "f y = f (xs ! i) + d"
  shows "sum_list (map f (xs[i := y])) = sum_list (map f xs) + d"
proof -
  from sum_list_map_update [OF assms(1), of f y] assms(2)
  have "sum_list (map f (xs[i := y])) + f (xs ! i) = (sum_list (map f xs) + d) + f (xs ! i)"
    by (simp add: ac_simps)
  then show ?thesis by simp
qed

lemma worker_accounted:
  assumes "accounted rr regions s" and "region_worker rr w s = Some s'"
  shows "accounted rr regions s'"
proof -
  let ?fs = "\<lambda>w. mset (worker_samples w)" and ?fr = "\<lambda>w. mset (worker_remain w)"
  from assms(1) have
    ts: "sum_list (map (\<lambda>r. mset (samples_of rr r)) regions) =
           mset (merged s) + sum_list (map ?fs (sample_workers s)) +
           sum_list (map (\<lambda>r. mset (samples_of rr r)) (items (regions_q s)))" and
    tr: "sum_list (map (\<lambda>r. mset (remain_of rr r)) regions) =
           mset (remainders s) + sum_list (map ?fr (sample_workers s)) +
           sum_list (map (\<lambda>r. mset (remain_of rr r)) (items (regions_q s)))"
    by (simp_all add: accounted_def)
  from assms(2) show ?thesis
  proof (cases rule: region_worker_cases)
    case get_empty
    then have "sum_list (map ?fs ((sample_workers s)[w := WStop])) = sum_list (map ?fs (sample_workers s)) + {#}"
      and "sum_list (map ?fr ((sample_workers s)[w := WStop])) = sum_list (map ?fr (sample_workers s)) + {#}"
      by (intro sum_list_update_in; simp)+
    with get_empty show ?thesis by (simp add: accounted_def merged_updates ts tr)
  next
    case (get_dead r rs e)
    then have "sum_list (map ?fs ((sample_workers s)[w := WDead e])) = sum_list (map ?fs (sample_workers s)) + {#}"
      and "sum_list (map ?fr ((sample_workers s)[w := WDead e])) = sum_list (map ?fr (sample_workers s)) + {#}"
      by (intro sum_list_update_in; simp)+
    moreover from get_dead have "samples_of rr r = []" "remain_of rr r = []"
      by (simp_all add: samples_of_def remain_of_def)
    ultimately show ?thesis using get_dead
      by (simp add: accounted_def merged_updates ts tr)
  next
    case (get_region r rs samples remain)
    then have "sum_list (map ?fs ((sample_workers s)[w := WPush samples remain])) =
        sum_list (map ?fs (sample_workers s)) + mset samples"
      and "sum_list (map ?fr ((sample_workers s)[w := WPush samples remain])) =
        sum_list (map ?fr (sample_workers s)) + mset remain"
      by (intro sum_list_update_in; simp)+
    moreover from get_region have "samples_of rr r = samples" "remain_of rr r = remain"
      by (simp_all add: samples_of_def remain_of_def)
    ultimately show ?thesis using get_region
      by (simp add: accounted_def merged_updates ts tr)
  next
    case stop
    then have "sum_list (map ?fs ((sample_workers s)[w := WDone])) = sum_list (map ?fs (sample_workers s)) + {#}"
      and "sum_list (map ?fr ((sample_workers s)[w := WDone])) = sum_list (map ?fr (sample_workers s)) + {#}"
      by (intro sum_list_update_in; simp)+
    with stop show ?thesis by (simp add: accounted_def merged_updates ts tr)
  next
    case (push_done remain)
    then have "sum_list (map ?fs ((sample_workers s)[w := WGet])) = sum_list (map ?fs (sample_workers s)) + {#}"
      and "sum_list (map ?fr (sample_workers s)) = sum_list (map ?fr ((sample_workers s)[w := WGet])) + mset remain"
      by (intro sum_list_update_in sum_list_update_out; simp)+
    with push_done show ?thesis by (simp add: accounted_def merged_updates ts tr)
  next
    case (push x xs remain)
    then have "sum_list (map ?fs (sample_workers s)) =
        sum_list (map ?fs ((sample_workers s)[w := WPush xs remain])) + {#x#}"
      and "sum_list (map ?fr ((sample_workers s)[w := WPush xs remain])) = sum_list (map ?fr (sample_workers s)) + {#}"
      by (intro sum_list_update_in sum_list_update_out; simp)+
    with push show ?thesis by (simp add: accounted_def merged_updates ts tr)
  qed
qed

lemma step_accounted:
  assumes "uniform rr shp s" and "accounted rr regions s" and "step rr t s = Some s'"
  shows "accounted rr regions s'"
proof (cases t)
  case (Sample w)
  with assms show ?thesis by (auto simp: step_def intro: worker_accounted)
next
  case Batcher
  with assms(3) have "batch_worker_step s = Some s'" by (simp add: step_def)
  from batcher_merged [OF assms(1) this] assms(2) show ?thesis by (simp add: accounted_def)
next
  case Consumer
  with assms(3) have "next_step s = Some s'" by (simp add: step_def)
  from next_merged [OF this] assms(2) show ?thesis by (simp add: accounted_def)
qed

lemma sum_list_replicate_empty: "sum_list (replicate k ({#} :: 'a multiset)) = {#}"
  by (induction k) auto

lemma init_accounted: "accounted rr regions (DataLoader_init regions bsize cache n)"
  by (simp add: accounted_def merged_def batched_def DataLoader_init_def Queue_def
        sum_list_replicate_empty)


lemma healthy_uniform: "healthy rr shp s \<Longrightarrow> uniform rr shp s"
  by (simp add: healthy_def)

lemma run_accounted:
  assumes "healthy rr shp s" and "accounted rr regions s"
  shows "accounted rr regions (run rr sched s)"
proof -
  have "healthy rr shp (run rr sched s) \<and> accounted rr regions (run rr sched s)"
  proof (rule run_invariant [where P = "\<lambda>s. healthy rr shp s \<and> accounted rr regions s"])
    show "healthy rr shp s \<and> accounted rr regions s" using assms by simp
  next
    fix u t u'
    assume inv: "healthy rr shp u \<and> accounted rr regions u" and st: "step rr t u = Some u'"
    from inv st have "healthy rr shp u'" by (blast intro: step_healthy)
    moreover from inv st have "accounted rr regions u'"
      by (blast intro: step_accounted healthy_uniform)
    ultimately show "healthy rr shp u' \<and> accounted rr regions u'" ..
  qed
  then show ?thesis ..
qed

lemma returned_workers_hold_nothing:
  "list_all (\<lambda>w. w = WDone) ws \<Longrightarrow>
   sum_list (map (\<lambda>w. mset (worker_samples w)) ws) = {#} \<and>
   sum_list (map (\<lambda>w. mset (worker_remain w)) ws) = {#}"
  by (induction ws) auto

lemma finished_empty:
  assumes h: "healthy rr shp s" and fin: "finished s"
  shows "items (samples_q s) = [] \<and> items (batches_q s) = [] \<and> items (regions_q s) = [] \<and>
         pending s = [] \<and> merged s = concat (map fst (received s))"
proof -
  from fin have all: "list_all (\<lambda>w. w = WDone) (sample_workers s)" and bd: "bthread s = BDone"
    and st: "stopped s" by (simp_all add: finished_def)
  from h have c: "counting s" and cl: "closing s" and d: "drained s"
    and len: "length (sample_workers s) = nat (bam_workers s)" and pos: "0 < bam_workers s"
    by (simp_all add: healthy_def)
  from cl bd st have ex: "exhausted s" and bq: "items (batches_q s) = []" and pe: "pending s = []"
    by (simp_all add: closing_def)
  from all have "returned s = length (sample_workers s)" by (simp add: returned_def list_all_count)
  with c ex len have "count_list (items (samples_q s)) StopIteration = 0"
    by (auto simp: counting_def posted_def)
  then have "StopIteration \<notin> set (items (samples_q s))" by (simp add: count_list_0_iff)
  moreover from cl all have "items (samples_q s) = [] \<or> last (items (samples_q s)) = StopIteration"
    by (simp add: closing_def)
  ultimately have sq: "items (samples_q s) = []" using last_in_set by fastforce
  from len pos have "sample_workers s \<noteq> []" by auto
  with all have "WDone \<in> set (sample_workers s)"
    by (cases "sample_workers s") auto
  with d have rq: "items (regions_q s) = []" by (auto simp: drained_def)
  from bd bq pe sq have "merged s = concat (map fst (received s))"
    by (simp add: merged_def batched_def)
  with sq bq rq pe show ?thesis by simp
qed

text \<open>
  C5. For every region list whose sample generation returns (samples that are proper
  arrays, of one shape unless the batch size is 1), with at least one worker and a positive
  batch size, under any interleaving: the run can
  always be completed, and once it has finished the samples of the received batches are,
  as a multiset, exactly the samples generated from the regions (each occurrence in one
  batch, once), the remainder list holds exactly the remainder items reported, and nothing
  is left on any queue.
\<close>

theorem all_samples_batched_once:
  fixes rr :: "'r \<Rightarrow> error + ('p, 'e) sample list \<times> 'm list"
  assumes "0 < n" and "0 < bsize" and "list_all (good_region rr bsize shp) regions"
  shows "(\<exists>sched'. finished (run rr (sched @ sched') (DataLoader_init regions bsize cache n))) \<and>
         (finished (run rr sched (DataLoader_init regions bsize cache n)) \<longrightarrow>
            mset (concat (map fst (received (run rr sched (DataLoader_init regions bsize cache n))))) =
              mset (concat (map (samples_of rr) regions)) \<and>
            mset (remainders (run rr sched (DataLoader_init regions bsize cache n))) =
              mset (concat (map (remain_of rr) regions)) \<and>
            items (samples_q (run rr sched (DataLoader_init regions bsize cache n))) = [] \<and>
            items (batches_q (run rr sched (DataLoader_init regions bsize cache n))) = [] \<and>
            items (regions_q (run rr sched (DataLoader_init regions bsize cache n))) = [])"
proof -
  let ?i = "DataLoader_init regions bsize cache n :: ('r, 'p, 'e, 'm) loader"
  let ?s = "run rr sched ?i"
  have hi: "healthy rr shp ?i" using assms by (rule init_healthy)
  then have h: "healthy rr shp ?s" by (rule run_healthy)
  have a: "accounted rr regions ?s" using hi init_accounted by (rule run_accounted)
  from h obtain sched' where "finished (run rr sched' ?s)"
    using healthy_completes by blast
  then have f: "\<exists>sched'. finished (run rr (sched @ sched') ?i)"
    by (auto simp: run_append)
  have "mset (concat (map fst (received ?s))) = mset (concat (map (samples_of rr) regions)) \<and>
        mset (remainders ?s) = mset (concat (map (remain_of rr) regions)) \<and>
        items (samples_q ?s) = [] \<and> items (batches_q ?s) = [] \<and> items (regions_q ?s) = []"
    if fin: "finished ?s"
  proof -
    from finished_empty [OF h fin] have e: "items (samples_q ?s) = []" "items (batches_q ?s) = []"
      "items (regions_q ?s) = []" "merged ?s = concat (map fst (received ?s))"
      by simp_all
    from fin have "list_all (\<lambda>w. w = WDone) (sample_workers ?s)" by (simp add: finished_def)
    from returned_workers_hold_nothing [OF this] a e
    have "mset (concat (map fst (received ?s))) = sum_list (map (\<lambda>r. mset (samples_of rr r)) regions)"
      and "mset (remainders ?s) = sum_list (map (\<lambda>r. mset (remain_of rr r)) regions)"
      by (simp_all add: accounted_def)
    then show ?thesis using e by (simp add: mset_concat comp_def)
  qed
  with f show ?thesis by blast
qed


theorem all_samples_batched_once_witness:
  "finished (run (\<lambda>r. Inr ([\<lparr>meta = r, features = \<lparr>shape = [Suc r], elems = replicate (Suc r) 0\<rparr>\<rparr>], [r]))
      [Sample 0, Sample 1, Sample 1, Sample 0, Sample 0, Sample 1, Sample 0, Sample 1,
       Sample 0, Sample 1, Batcher, Batcher, Batcher, Batcher, Batcher, Batcher, Batcher,
       Consumer, Consumer, Consumer]
      (DataLoader_init [0::nat, 1] 1 8 2 :: (nat, nat, int, nat) loader)) \<and>
   mset (concat (map fst (received (run (\<lambda>r. Inr ([\<lparr>meta = r, features = \<lparr>shape = [Suc r], elems = replicate (Suc r) 0\<rparr>\<rparr>], [r]))
      [Sample 0, Sample 1, Sample 1, Sample 0, Sample 0, Sample 1, Sample 0, Sample 1,
       Sample 0, Sample 1, Batcher, Batcher, Batcher, Batcher, Batcher, Batcher, Batcher,
       Consumer, Consumer, Consumer]
      (DataLoader_init [0::nat, 1] 1 8 2 :: (nat, nat, int, nat) loader))))) =
     {#\<lparr>meta = 0, features = \<lparr>shape = [1], elems = [0]\<rparr>\<rparr>,
       \<lparr>meta = 1, features = \<lparr>shape = [2], elems = [0, 0]\<rparr>\<rparr>#} \<and>
   mset (remainders (run (\<lambda>r. Inr ([\<lparr>meta = r, features = \<lparr>shape = [Suc r], elems = replicate (Suc r) 0\<rparr>\<rparr>], [r]))
      [Sample 0, Sample 1, Sample 1, Sample 0, Sample 0, Sample 1, Sample 0, Sample 1,
       Sample 0, Sample 1, Batcher, Batcher, Batcher, Batcher, Batcher, Batcher, Batcher,
       Consumer, Consumer, Consumer]
      (DataLoader_init [0::nat, 1] 1 8 2 :: (nat, nat, int, nat) loader))) = {#0, 1#}"
proof -
  let ?rr = "(\<lambda>r. Inr ([\<lparr>meta = r, features = \<lparr>shape = [Suc r], elems = replicate (Suc r) 0\<rparr>\<rparr>], [r])) :: nat \<Rightarrow> error + (nat, int) sample list \<times> nat list"
  have g: "list_all (good_region ?rr 1 []) [0, 1]"
    by (simp add: good_region_def ok_sample_def wf_array_def)
  have f: "finished (run (\<lambda>r. Inr ([\<lparr>meta = r, features = \<lparr>shape = [Suc r], elems = replicate (Suc r) 0\<rparr>\<rparr>], [r]))
      [Sample 0, Sample 1, Sample 1, Sample 0, Sample 0, Sample 1, Sample 0, Sample 1,
       Sample 0, Sample 1, Batcher, Batcher, Batcher, Batcher, Batcher, Batcher, Batcher,
       Consumer, Consumer, Consumer]
      (DataLoader_init [0::nat, 1] 1 8 2 :: (nat, nat, int, nat) loader))"
    by (simp add: eval_defs finished_def numeral_2_eq_2)
  from all_samples_batched_once [where n = 2 and bsize = 1 and cache = 8 and rr = ?rr
      and shp = "[]" and regions = "[0, 1]" and sched = "[Sample 0, Sample 1, Sample 1, Sample 0, Sample 0, Sample 1, Sample 0, Sample 1,
       Sample 0, Sample 1, Batcher, Batcher, Batcher, Batcher, Batcher, Batcher, Batcher,
       Consumer, Consumer, Consumer]", OF _ _ g] f
  show ?thesis by (simp add: samples_of_def remain_of_def numeral_2_eq_2)
qed

section \<open>Samples of a region stay in order\<close>

lemma merge_of_add_empty: "merge_of M zs \<Longrightarrow> merge_of (add_mset [] M) zs"
proof (induction rule: merge_of.induct)
  case (nothing M)
  then have "\<forall>xs \<in># add_mset [] M. xs = []" by simp
  then show ?case by (rule merge_of.nothing)
next
  case (snoc xs M zs x)
  then have "merge_of (add_mset xs (add_mset [] M)) zs" by (simp add: add_mset_commute)
  then have "merge_of (add_mset (xs @ [x]) (add_mset [] M)) (zs @ [x])" by (rule merge_of.snoc)
  then show ?case by (simp add: add_mset_commute)
qed

lemma mset_map_update:
  "i < length xs \<Longrightarrow>
   add_mset (f (xs ! i)) (mset (map f (xs[i := y]))) = add_mset (f y) (mset (map f xs))"
proof (induction xs arbitrary: i)
  case Nil
  then show ?case by simp
next
  case (Cons x xs)
  show ?case
  proof (cases i)
    case 0
    then show ?thesis by simp
  next
    case (Suc j)
    with Cons.prems have "j < length xs" by simp
    from Cons.IH [OF this] Suc show ?thesis by (simp add: add_mset_commute)
  qed
qed

lemma live_update:
  assumes "i < length xs"
  shows "filter_mset P (mset (map f (xs[i := y]))) + filter_mset P {#f (xs ! i)#} =
         filter_mset P (mset (map f xs)) + filter_mset P {#f y#}"
proof -
  have "filter_mset P (add_mset (f (xs ! i)) (mset (map f (xs[i := y])))) =
        filter_mset P (add_mset (f y) (mset (map f xs)))"
    using mset_map_update [OF assms, of f y] by simp
  then show ?thesis by (auto split: if_splits)
qed

lemma live_update_same:
  assumes "i < length xs" and "f (xs ! i) = []" and "f y = []"
  shows "filter_mset (\<lambda>r. r \<noteq> []) (mset (map f (xs[i := y]))) =
         filter_mset (\<lambda>r. r \<noteq> []) (mset (map f xs))"
  using live_update [OF assms(1), of "\<lambda>r. r \<noteq> []" f y] assms(2,3) by simp


lemma worker_ordered:
  fixes rr :: "'r \<Rightarrow> error + ('p, 'e) sample list \<times> 'm list"
  assumes "ordered rr regions s" and "region_worker rr w s = Some s'"
  shows "ordered rr regions s'"
proof -
  let ?P = "\<lambda>r::('p, 'e) sample list. r \<noteq> []"
  let ?W = "\<lambda>ws. filter_mset ?P (mset (map worker_samples ws))"
  from assms(1) obtain Q where m: "merge_of (image_mset fst Q) (merged s)"
    and t: "image_mset (\<lambda>(p, r). p @ r) Q + mset (map (samples_of rr) (items (regions_q s))) =
            mset (map (samples_of rr) regions)"
    and l: "filter_mset ?P (image_mset snd Q) = ?W (sample_workers s)"
    by (auto simp: ordered_def)
  from assms(2) show ?thesis
  proof (cases rule: region_worker_cases)
    case get_empty
    then have "?W ((sample_workers s)[w := WStop]) = ?W (sample_workers s)"
      by (intro live_update_same) simp_all
    with get_empty m t l show ?thesis
      unfolding ordered_def by (intro exI [of _ Q]) (simp add: merged_updates)
  next
    case (get_dead r rs e)
    then have w: "?W ((sample_workers s)[w := WDead e]) = ?W (sample_workers s)"
      by (intro live_update_same) simp_all
    from get_dead have "samples_of rr r = []" by (simp add: samples_of_def)
    with t get_dead have t': "add_mset [] (image_mset (\<lambda>(p, r). p @ r) Q) + mset (map (samples_of rr) rs) =
        mset (map (samples_of rr) regions)" by simp
    from m have "merge_of (image_mset fst (add_mset ([], []) Q)) (merged s)"
      by (simp add: merge_of_add_empty)
    with get_dead t' l w show ?thesis
      unfolding ordered_def by (intro exI [of _ "add_mset ([], []) Q"]) (simp add: merged_updates)
  next
    case (get_region r rs samples remain)
    from live_update [of w "sample_workers s" ?P worker_samples "WPush samples remain"] get_region
    have w: "?W ((sample_workers s)[w := WPush samples remain]) =
        ?W (sample_workers s) + filter_mset ?P {#samples#}" by simp
    from get_region have "samples_of rr r = samples" by (simp add: samples_of_def)
    with t get_region have t': "add_mset samples (image_mset (\<lambda>(p, r). p @ r) Q) + mset (map (samples_of rr) rs) =
        mset (map (samples_of rr) regions)" by simp
    from m have "merge_of (image_mset fst (add_mset ([], samples) Q)) (merged s)"
      by (simp add: merge_of_add_empty)
    with get_region t' l w show ?thesis
      unfolding ordered_def by (intro exI [of _ "add_mset ([], samples) Q"]) (simp add: merged_updates)
  next
    case stop
    then have "?W ((sample_workers s)[w := WDone]) = ?W (sample_workers s)"
      by (intro live_update_same) simp_all
    with stop m t l show ?thesis
      unfolding ordered_def by (intro exI [of _ Q]) (simp add: merged_updates)
  next
    case (push_done remain)
    then have "?W ((sample_workers s)[w := WGet]) = ?W (sample_workers s)"
      by (intro live_update_same) simp_all
    with push_done m t l show ?thesis
      unfolding ordered_def by (intro exI [of _ Q]) (simp add: merged_updates)
  next
    case (push x xs remain)
    then have "x # xs \<in># mset (map worker_samples (sample_workers s))"
      by (metis in_set_conv_nth length_map nth_map set_mset_mset worker_samples.simps(1))
    then have "x # xs \<in># ?W (sample_workers s)" by simp
    with l have "x # xs \<in># image_mset snd Q" by (metis (mono_tags, lifting) filter_mset_eq_conv mset_subset_eqD)
    then obtain p where "(p, x # xs) \<in># Q" by auto
    then obtain Q0 where Q: "Q = add_mset (p, x # xs) Q0" by (meson multi_member_split)
    from live_update [of w "sample_workers s" ?P worker_samples "WPush xs remain"] push
    have "add_mset (x # xs) (?W ((sample_workers s)[w := WPush xs remain])) =
        ?W (sample_workers s) + filter_mset ?P {#xs#}" by simp
    also from l Q have "?W (sample_workers s) = add_mset (x # xs) (filter_mset ?P (image_mset snd Q0))"
      by simp
    finally have w: "?W ((sample_workers s)[w := WPush xs remain]) =
        filter_mset ?P (image_mset snd Q0) + filter_mset ?P {#xs#}" by simp
    from m Q have "merge_of (add_mset p (image_mset fst Q0)) (merged s)" by simp
    then have "merge_of (add_mset (p @ [x]) (image_mset fst Q0)) (merged s @ [x])"
      by (rule merge_of.snoc)
    then have m': "merge_of (image_mset fst (add_mset (p @ [x], xs) Q0)) (merged s @ [x])" by simp
    from t Q have t': "image_mset (\<lambda>(p, r). p @ r) (add_mset (p @ [x], xs) Q0) +
        mset (map (samples_of rr) (items (regions_q s))) = mset (map (samples_of rr) regions)"
      by simp
    from push m' t' w show ?thesis
      unfolding ordered_def by (intro exI [of _ "add_mset (p @ [x], xs) Q0"]) (simp add: merged_updates)
  qed
qed


lemma step_ordered:
  assumes "uniform rr shp s" and "ordered rr regions s" and "step rr t s = Some s'"
  shows "ordered rr regions s'"
proof (cases t)
  case (Sample w)
  with assms show ?thesis by (auto simp: step_def intro: worker_ordered)
next
  case Batcher
  with assms(3) have "batch_worker_step s = Some s'" by (simp add: step_def)
  from batcher_merged [OF assms(1) this] assms(2) show ?thesis by (simp add: ordered_def)
next
  case Consumer
  with assms(3) have "next_step s = Some s'" by (simp add: step_def)
  from next_merged [OF this] assms(2) show ?thesis by (simp add: ordered_def)
qed

lemma idle_workers_hold_nothing:
  "filter_mset (\<lambda>r. r \<noteq> []) (mset (map worker_samples (replicate k WGet))) = {#}"
  by (induction k) auto

lemma init_ordered: "ordered rr regions (DataLoader_init regions bsize cache n)"
proof -
  let ?i = "DataLoader_init regions bsize cache n :: ('a, 'b, 'c, 'd) loader"
  have mi: "merged ?i = []"
    by (simp add: merged_def batched_def DataLoader_init_def Queue_def)
  have wi: "sample_workers ?i = replicate (nat n) WGet" and ri: "items (regions_q ?i) = regions"
    by (simp_all add: DataLoader_init_def Queue_def)
  have "merge_of (image_mset fst {#}) (merged ?i)"
    unfolding mi by (rule merge_of.nothing) simp
  then show ?thesis
    unfolding ordered_def
    by (intro exI [of _ "{#}"]) (simp add: wi ri idle_workers_hold_nothing)
qed

lemma run_ordered:
  assumes "healthy rr shp s" and "ordered rr regions s"
  shows "ordered rr regions (run rr sched s)"
proof -
  have "healthy rr shp (run rr sched s) \<and> ordered rr regions (run rr sched s)"
  proof (rule run_invariant [where P = "\<lambda>s. healthy rr shp s \<and> ordered rr regions s"])
    show "healthy rr shp s \<and> ordered rr regions s" using assms by simp
  next
    fix u t u'
    assume inv: "healthy rr shp u \<and> ordered rr regions u" and st: "step rr t u = Some u'"
    from inv st have "healthy rr shp u'" by (blast intro: step_healthy)
    moreover from inv st have "ordered rr regions u'"
      by (blast intro: step_ordered healthy_uniform)
    ultimately show "healthy rr shp u' \<and> ordered rr regions u'" ..
  qed
  then show ?thesis ..
qed

lemma merge_of_prefix:
  "merge_of (image_mset fst Q) (zs @ ys) \<Longrightarrow>
   \<exists>Q'. merge_of (image_mset fst Q') zs \<and>
        image_mset (\<lambda>(p, r). p @ r) Q' = image_mset (\<lambda>(p, r). p @ r) Q"
proof (induction ys arbitrary: Q rule: rev_induct)
  case Nil
  then show ?case by auto
next
  case (snoc y ys)
  from snoc.prems have "merge_of (image_mset fst Q) ((zs @ ys) @ [y])" by simp
  then obtain xs M where M: "image_mset fst Q = add_mset (xs @ [y]) M"
    and mo: "merge_of (add_mset xs M) (zs @ ys)"
    by (cases rule: merge_of.cases) auto
  from M obtain q Q0 where Q: "Q = add_mset q Q0" and q: "fst q = xs @ [y]"
    and M0: "M = image_mset fst Q0"
    by (metis msed_map_invR)
  let ?Q1 = "add_mset (xs, y # snd q) Q0"
  from mo M0 have "merge_of (image_mset fst ?Q1) (zs @ ys)" by simp
  from snoc.IH [OF this] obtain Q' where "merge_of (image_mset fst Q') zs"
    and "image_mset (\<lambda>(p, r). p @ r) Q' = image_mset (\<lambda>(p, r). p @ r) ?Q1"
    by blast
  moreover have "image_mset (\<lambda>(p, r). p @ r) ?Q1 = image_mset (\<lambda>(p, r). p @ r) Q"
    using Q q by (cases q) simp
  ultimately show ?case by auto
qed


lemma returned_workers_not_live:
  "list_all (\<lambda>w. w = WDone) ws \<Longrightarrow>
   filter_mset (\<lambda>r. r \<noteq> []) (mset (map worker_samples ws)) = {#}"
  by (induction ws) auto

text \<open>
  C7. For every region list whose sample generation returns (samples that are proper
  arrays, of one shape unless the batch size is 1), with at least one worker and a positive
  batch size, in every state of every run: the
  merged sample stream is an interleaving of prefixes of the regions' sample lists (\<open>Q\<close>
  pairs, for each region taken, the samples already in the stream with those still to
  come), and so is the concatenation of the batches emitted so far; once the run has
  finished, the concatenation of the received batches is an interleaving of the regions'
  whole sample lists. So two samples of one region always appear in the order in which
  they were generated, whatever the interleaving across regions.
\<close>

theorem region_order_preserved:
  fixes rr :: "'r \<Rightarrow> error + ('p, 'e) sample list \<times> 'm list"
  assumes "0 < n" and "0 < bsize" and "list_all (good_region rr bsize shp) regions"
  shows "(\<exists>Q. merge_of (image_mset fst Q) (merged (run rr sched (DataLoader_init regions bsize cache n))) \<and>
              image_mset (\<lambda>(p, r). p @ r) Q \<subseteq># mset (map (samples_of rr) regions)) \<and>
         (\<exists>Q. merge_of (image_mset fst Q)
                (concat (map fst (received (run rr sched (DataLoader_init regions bsize cache n)) @
                   payloads (items (batches_q (run rr sched (DataLoader_init regions bsize cache n))))))) \<and>
              image_mset (\<lambda>(p, r). p @ r) Q \<subseteq># mset (map (samples_of rr) regions)) \<and>
         (finished (run rr sched (DataLoader_init regions bsize cache n)) \<longrightarrow>
            merge_of (mset (map (samples_of rr) regions))
              (concat (map fst (received (run rr sched (DataLoader_init regions bsize cache n))))))"
proof -
  let ?i = "DataLoader_init regions bsize cache n :: ('r, 'p, 'e, 'm) loader"
  let ?s = "run rr sched ?i"
  let ?T = "mset (map (samples_of rr) regions)"
  have hi: "healthy rr shp ?i" using assms by (rule init_healthy)
  then have h: "healthy rr shp ?s" by (rule run_healthy)
  have "ordered rr regions ?s" using hi init_ordered by (rule run_ordered)
  then obtain Q where m: "merge_of (image_mset fst Q) (merged ?s)"
    and t: "image_mset (\<lambda>(p, r). p @ r) Q + mset (map (samples_of rr) (items (regions_q ?s))) = ?T"
    and l: "filter_mset (\<lambda>r. r \<noteq> []) (image_mset snd Q) =
            filter_mset (\<lambda>r. r \<noteq> []) (mset (map worker_samples (sample_workers ?s)))"
    by (auto simp: ordered_def)
  from t have sub: "image_mset (\<lambda>(p, r). p @ r) Q \<subseteq># ?T"
    by (metis mset_subset_eq_add_left)
  with m have one: "\<exists>Q. merge_of (image_mset fst Q) (merged ?s) \<and>
      image_mset (\<lambda>(p, r). p @ r) Q \<subseteq># ?T" by blast
  have "\<exists>rest. merged ?s = concat (map fst (received ?s @ payloads (items (batches_q ?s)))) @ rest"
    by (simp add: merged_def batched_def)
  then obtain rest where
    "merged ?s = concat (map fst (received ?s @ payloads (items (batches_q ?s)))) @ rest" ..
  with m merge_of_prefix [of Q "concat (map fst (received ?s @ payloads (items (batches_q ?s))))" rest]
  obtain Q' where "merge_of (image_mset fst Q')
        (concat (map fst (received ?s @ payloads (items (batches_q ?s)))))"
    and "image_mset (\<lambda>(p, r). p @ r) Q' = image_mset (\<lambda>(p, r). p @ r) Q"
    by auto
  with sub have two: "\<exists>Q. merge_of (image_mset fst Q)
        (concat (map fst (received ?s @ payloads (items (batches_q ?s))))) \<and>
      image_mset (\<lambda>(p, r). p @ r) Q \<subseteq># ?T" by auto
  have three: "merge_of ?T (concat (map fst (received ?s)))" if fin: "finished ?s"
  proof -
    from finished_empty [OF h fin] have e: "items (regions_q ?s) = []"
      "merged ?s = concat (map fst (received ?s))" by simp_all
    from fin have "list_all (\<lambda>w. w = WDone) (sample_workers ?s)" by (simp add: finished_def)
    from returned_workers_not_live [OF this] l
    have "filter_mset (\<lambda>r. r \<noteq> []) (image_mset snd Q) = {#}"
      by simp
    then have "\<forall>q \<in># Q. snd q = []"
      by auto
    then have "image_mset (\<lambda>(p, r). p @ r) Q = image_mset fst Q"
      by (intro image_mset_cong) (auto simp: case_prod_beta)
    with t e have "image_mset fst Q = ?T" by simp
    with m e show ?thesis by simp
  qed
  from one two three show ?thesis by blast
qed

theorem region_order_preserved_witness:
  "finished (run (\<lambda>r. Inr ([\<lparr>meta = (r, 0), features = \<lparr>shape = [1], elems = [0]\<rparr>\<rparr>,
                  \<lparr>meta = (r, 1), features = \<lparr>shape = [1], elems = [0]\<rparr>\<rparr>], [] :: unit list))
      [Sample 0, Sample 1, Sample 0, Sample 1, Sample 1, Sample 0, Sample 0, Sample 1,
       Sample 0, Sample 1, Sample 0, Sample 1, Batcher, Batcher, Batcher, Batcher, Batcher,
       Batcher, Batcher, Batcher, Batcher, Consumer, Consumer, Consumer]
      (DataLoader_init [0::nat, 1] 2 8 2 :: (nat, nat \<times> nat, int, unit) loader)) \<and>
   map meta (concat (map fst (received (run (\<lambda>r. Inr ([\<lparr>meta = (r, 0), features = \<lparr>shape = [1], elems = [0]\<rparr>\<rparr>,
                  \<lparr>meta = (r, 1), features = \<lparr>shape = [1], elems = [0]\<rparr>\<rparr>], [] :: unit list))
      [Sample 0, Sample 1, Sample 0, Sample 1, Sample 1, Sample 0, Sample 0, Sample 1,
       Sample 0, Sample 1, Sample 0, Sample 1, Batcher, Batcher, Batcher, Batcher, Batcher,
       Batcher, Batcher, Batcher, Batcher, Consumer, Consumer, Consumer]
      (DataLoader_init [0::nat, 1] 2 8 2 :: (nat, nat \<times> nat, int, unit) loader))))) = [(0, 0), (1, 0), (1, 1), (0, 1)] \<and>
   merge_of (mset (map (samples_of (\<lambda>r. Inr ([\<lparr>meta = (r, 0), features = \<lparr>shape = [1], elems = [0]\<rparr>\<rparr>,
                  \<lparr>meta = (r, 1), features = \<lparr>shape = [1], elems = [0]\<rparr>\<rparr>], [] :: unit list))) [0::nat, 1]))
     (concat (map fst (received (run (\<lambda>r. Inr ([\<lparr>meta = (r, 0), features = \<lparr>shape = [1], elems = [0]\<rparr>\<rparr>,
                  \<lparr>meta = (r, 1), features = \<lparr>shape = [1], elems = [0]\<rparr>\<rparr>], [] :: unit list))
      [Sample 0, Sample 1, Sample 0, Sample 1, Sample 1, Sample 0, Sample 0, Sample 1,
       Sample 0, Sample 1, Sample 0, Sample 1, Batcher, Batcher, Batcher, Batcher, Batcher,
       Batcher, Batcher, Batcher, Batcher, Consumer, Consumer, Consumer]
      (DataLoader_init [0::nat, 1] 2 8 2 :: (nat, nat \<times> nat, int, unit) loader)))))"
proof -
  let ?rr = "(\<lambda>r. Inr ([\<lparr>meta = (r, 0), features = \<lparr>shape = [1], elems = [0]\<rparr>\<rparr>,
                  \<lparr>meta = (r, 1), features = \<lparr>shape = [1], elems = [0]\<rparr>\<rparr>], [] :: unit list)) :: nat \<Rightarrow> error + (nat \<times> nat, int) sample list \<times> unit list"
  have g: "list_all (good_region ?rr 2 [1]) [0, 1]"
    by (simp add: good_region_def ok_sample_def wf_array_def)
  have f: "finished (run (\<lambda>r. Inr ([\<lparr>meta = (r, 0), features = \<lparr>shape = [1], elems = [0]\<rparr>\<rparr>,
                  \<lparr>meta = (r, 1), features = \<lparr>shape = [1], elems = [0]\<rparr>\<rparr>], [] :: unit list))
      [Sample 0, Sample 1, Sample 0, Sample 1, Sample 1, Sample 0, Sample 0, Sample 1,
       Sample 0, Sample 1, Sample 0, Sample 1, Batcher, Batcher, Batcher, Batcher, Batcher,
       Batcher, Batcher, Batcher, Batcher, Consumer, Consumer, Consumer]
      (DataLoader_init [0::nat, 1] 2 8 2 :: (nat, nat \<times> nat, int, unit) loader))"
    by (simp add: eval_defs finished_def numeral_2_eq_2)
  have v: "map meta (concat (map fst (received (run (\<lambda>r. Inr ([\<lparr>meta = (r, 0), features = \<lparr>shape = [1], elems = [0]\<rparr>\<rparr>,
                  \<lparr>meta = (r, 1), features = \<lparr>shape = [1], elems = [0]\<rparr>\<rparr>], [] :: unit list))
      [Sample 0, Sample 1, Sample 0, Sample 1, Sample 1, Sample 0, Sample 0, Sample 1,
       Sample 0, Sample 1, Sample 0, Sample 1, Batcher, Batcher, Batcher, Batcher, Batcher,
       Batcher, Batcher, Batcher, Batcher, Consumer, Consumer, Consumer]
      (DataLoader_init [0::nat, 1] 2 8 2 :: (nat, nat \<times> nat, int, unit) loader))))) = [(0, 0), (1, 0), (1, 1), (0, 1)]"
    by (simp add: eval_defs numeral_2_eq_2)
  have a: "(0::int) < 2" by simp
  from region_order_preserved [where n = 2 and bsize = 2 and cache = 8 and rr = ?rr
      and shp = "[1]" and regions = "[0, 1]" and sched = "[Sample 0, Sample 1, Sample 0, Sample 1, Sample 1, Sample 0, Sample 0, Sample 1,
       Sample 0, Sample 1, Sample 0, Sample 1, Batcher, Batcher, Batcher, Batcher, Batcher,
       Batcher, Batcher, Batcher, Batcher, Consumer, Consumer, Consumer]", OF a a g] f v
  show ?thesis by blast
qed

section \<open>The batches are the groups of the stream\<close>

lemma grouper_acc_fill:
  "int (length (acc @ g)) < n \<Longrightarrow> grouper_acc n acc (g @ xs) = grouper_acc n (acc @ g) xs"
proof (induction g arbitrary: acc)
  case Nil
  then show ?case by simp
next
  case (Cons x g)
  then have "int (length ((acc @ [x]) @ g)) < n" by simp
  from Cons.IH [OF this] Cons.prems show ?case by simp
qed

lemma grouper_acc_close:
  assumes "int (length (acc @ g)) = n" and "g \<noteq> []"
  shows "grouper_acc n acc (g @ xs) = (acc @ g) # grouper_acc n [] xs"
proof -
  from assms(2) obtain g' x where g: "g = g' @ [x]" by (cases g rule: rev_cases) auto
  with assms(1) have "int (length (acc @ g')) < n" by simp
  then have "grouper_acc n acc (g' @ (x # xs)) = grouper_acc n (acc @ g') (x # xs)"
    by (rule grouper_acc_fill)
  with g assms(1) show ?thesis by simp
qed

lemma grouper_acc_groups:
  assumes "\<forall>g \<in> set (butlast gs). int (length g) = n"
    and "\<forall>g \<in> set gs. 1 \<le> length g \<and> int (length g) \<le> n"
  shows "grouper_acc n [] (concat gs) = gs"
  using assms
proof (induction gs)
  case Nil
  then show ?case by simp
next
  case (Cons g gs)
  from Cons.prems(2) have g: "g \<noteq> []" "int (length g) \<le> n" by auto
  show ?case
  proof (cases "gs = []")
    case True
    show ?thesis
    proof (cases "int (length g) = n")
      case full: True
      with g True show ?thesis using grouper_acc_close [of "[]" g n "[]"] by simp
    next
      case False
      with g have "int (length ([] @ g)) < n" by simp
      from grouper_acc_fill [OF this, of "[]"] g True show ?thesis by simp
    qed
  next
    case False
    with Cons.prems have "int (length g) = n" and "\<forall>g \<in> set (butlast gs). int (length g) = n"
      and "\<forall>g \<in> set gs. 1 \<le> length g \<and> int (length g) \<le> n" by simp_all
    with Cons.IH g show ?thesis using grouper_acc_close [of "[]" g n "concat gs"] by simp
  qed
qed

lemma batched_emitted: "batched s = concat (map fst (emitted s)) @ pending s"
  by (cases "bthread s") (simp_all add: batched_def emitted_def)

lemma worker_emitted:
  assumes "region_worker rr w s = Some s'"
  shows "emitted s' = emitted s \<and> exhausted s' = exhausted s \<and> pending s' = pending s \<and>
         batch_size s' = batch_size s"
  using assms by (cases rule: region_worker_cases) (simp_all add: emitted_def)

lemma next_emitted:
  assumes "next_step s = Some s'"
  shows "emitted s' = emitted s \<and> exhausted s' = exhausted s \<and> pending s' = pending s \<and>
         batch_size s' = batch_size s"
  using assms by (cases rule: next_step_cases) (simp_all add: emitted_def)

lemma full_groups:
  assumes "0 < n" and "\<forall>b \<in> set E. int (length (fst b)) = n"
  shows "(\<forall>b \<in> set (butlast E). int (length (fst b)) = n) \<and>
         (\<forall>b \<in> set E. 1 \<le> length (fst b) \<and> int (length (fst b)) \<le> n)"
proof -
  have "1 \<le> length (fst b) \<and> int (length (fst b)) \<le> n" if "b \<in> set E" for b
  proof -
    from that assms(2) have "int (length (fst b)) = n" by blast
    with assms(1) show ?thesis by arith
  qed
  with assms(2) show ?thesis by (auto dest: in_set_butlastD)
qed

lemma full_groups_snoc:
  assumes "0 < n" and "\<forall>b \<in> set E. int (length (fst b)) = n"
    and "1 \<le> length (fst b)" and "int (length (fst b)) \<le> n"
  shows "(\<forall>b \<in> set (butlast (E @ [b])). int (length (fst b)) = n) \<and>
         (\<forall>b \<in> set (E @ [b]). 1 \<le> length (fst b) \<and> int (length (fst b)) \<le> n)"
  using assms full_groups [OF assms(1,2)] by (auto simp: butlast_append)

lemma batcher_grouped:
  assumes u: "uniform rr shp s" and c: "counting s" and g: "grouped s"
    and st: "batch_worker_step s = Some s'"
  shows "grouped s'"
proof -
  from u have pos: "0 < batch_size s" and short: "int (length (pending s)) < batch_size s"
    by (simp_all add: uniform_def)
  from st show ?thesis
  proof (cases rule: batch_worker_step_cases)
    case (stop_more q)
    from c stop_more(1) have "\<not> exhausted s" by (auto simp: counting_def)
    moreover from stop_more have "emitted s' = emitted s" by (simp add: emitted_def)
    ultimately show ?thesis using stop_more g by (simp add: grouped_def)
  next
    case (stop_last q)
    from c stop_last(1) have "\<not> exhausted s" by (auto simp: counting_def)
    with g have "\<forall>b \<in> set (emitted s). int (length (fst b)) = batch_size s"
      by (simp add: grouped_def)
    from full_groups [OF pos this] stop_last show ?thesis
      by (simp add: grouped_def emitted_def)
  next
    case (stop_group q b)
    from c stop_group(1) have "\<not> exhausted s" by (auto simp: counting_def)
    with g have full: "\<forall>b \<in> set (emitted s). int (length (fst b)) = batch_size s"
      by (simp add: grouped_def)
    from stop_group stack_batch_same [OF u, of b] have b: "fst b = pending s" by simp
    with stop_group short have "1 \<le> length (fst b)" "int (length (fst b)) \<le> batch_size s"
      by (simp_all add: Suc_le_eq)
    from full_groups_snoc [OF pos full this] stop_group show ?thesis
      by (simp add: grouped_def emitted_def)
  next
    case (stop_dead q e)
    with u stack_batch_ok [of "batch_size s" shp "pending s"] show ?thesis
      by (auto simp: uniform_def)
  next
    case (item_more x q)
    from c item_more(1) have "\<not> exhausted s" by (auto simp: counting_def)
    moreover from item_more have "emitted s' = emitted s" by (simp add: emitted_def)
    ultimately show ?thesis using item_more g by (simp add: grouped_def)
  next
    case (item_group x q b)
    from c item_group(1) have ne: "\<not> exhausted s" by (auto simp: counting_def)
    from item_group stack_batch_same_snoc [OF u, of x q b] have "fst b = pending s @ [x]" by simp
    with item_group have "int (length (fst b)) = batch_size s" by simp
    moreover from item_group have "emitted s' = emitted s @ [b]" by (simp add: emitted_def)
    ultimately show ?thesis using item_group g ne by (simp add: grouped_def)
  next
    case (item_dead x q e)
    with u stack_batch_ok [of "batch_size s" shp "pending s @ [x]"] show ?thesis
      by (auto simp: uniform_def)
  next
    case (put_batch b)
    with g show ?thesis
      by (cases "exhausted s") (simp_all add: grouped_def emitted_def payloads_append)
  next
    case put_stop
    then have "emitted s' = emitted s" by (simp add: emitted_def payloads_append)
    with put_stop g show ?thesis by (simp add: grouped_def)
  qed
qed

lemma step_grouped:
  assumes "healthy rr shp s" and "grouped s" and "step rr t s = Some s'"
  shows "grouped s'"
proof (cases t)
  case (Sample w)
  with assms(3) have "region_worker rr w s = Some s'" by (simp add: step_def)
  from worker_emitted [OF this] assms(2) show ?thesis by (simp add: grouped_def)
next
  case Batcher
  with assms(3) have "batch_worker_step s = Some s'" by (simp add: step_def)
  with assms(1,2) show ?thesis by (auto simp: healthy_def intro: batcher_grouped)
next
  case Consumer
  with assms(3) have "next_step s = Some s'" by (simp add: step_def)
  from next_emitted [OF this] assms(2) show ?thesis by (simp add: grouped_def)
qed

lemma run_grouped:
  assumes "healthy rr shp s" and "grouped s"
  shows "grouped (run rr sched s)"
proof -
  have "healthy rr shp (run rr sched s) \<and> grouped (run rr sched s)"
  proof (rule run_invariant [where P = "\<lambda>s. healthy rr shp s \<and> grouped s"])
    show "healthy rr shp s \<and> grouped s" using assms by simp
  next
    fix u t u'
    assume inv: "healthy rr shp u \<and> grouped u" and st: "step rr t u = Some u'"
    from inv st have "healthy rr shp u'" by (blast intro: step_healthy)
    moreover from inv st have "grouped u'" by (blast intro: step_grouped)
    ultimately show "healthy rr shp u' \<and> grouped u'" ..
  qed
  then show ?thesis ..
qed

lemma init_grouped: "grouped (DataLoader_init regions bsize cache n)"
  by (simp add: grouped_def emitted_def DataLoader_init_def Queue_def)

text \<open>
  The batcher thread of the interleaving model and the function \<open>batch_worker\<close> agree: in a
  finished run the sample lists of the batches received are what \<open>grouper\<close> makes of the
  merged stream.
\<close>

theorem batches_are_groups_of_stream:
  fixes rr :: "'r \<Rightarrow> error + ('p, 'e) sample list \<times> 'm list"
  assumes "0 < n" and "0 < bsize" and "list_all (good_region rr bsize shp) regions"
    and "finished (run rr sched (DataLoader_init regions bsize cache n))"
  shows "map fst (received (run rr sched (DataLoader_init regions bsize cache n))) =
         grouper (merged (run rr sched (DataLoader_init regions bsize cache n))) bsize"
proof -
  let ?i = "DataLoader_init regions bsize cache n :: ('r, 'p, 'e, 'm) loader"
  let ?s = "run rr sched ?i"
  have hi: "healthy rr shp ?i" using assms(1-3) by (rule init_healthy)
  then have h: "healthy rr shp ?s" by (rule run_healthy)
  have g: "grouped ?s" using hi init_grouped by (rule run_grouped)
  have bs: "batch_size ?s = bsize"
    using run_static [of rr sched regions bsize cache n] by (simp add: static_def)
  from finished_empty [OF h assms(4)] have e: "items (batches_q ?s) = []"
    "merged ?s = concat (map fst (received ?s))" by simp_all
  from assms(4) have "bthread ?s = BDone" by (simp add: finished_def)
  with e have em: "emitted ?s = received ?s" by (simp add: emitted_def)
  from h assms(4) have "exhausted ?s" by (simp add: healthy_def closing_def finished_def)
  with g em bs have "\<forall>b \<in> set (butlast (received ?s)). int (length (fst b)) = bsize"
    and "\<forall>b \<in> set (received ?s). 1 \<le> length (fst b) \<and> int (length (fst b)) \<le> bsize"
    by (simp_all add: grouped_def)
  then have "grouper_acc bsize [] (concat (map fst (received ?s))) = map fst (received ?s)"
    by (intro grouper_acc_groups) (auto simp: map_butlast [symmetric])
  with e show ?thesis by (simp add: grouper_def)
qed

end
